theory Spec2Isabelle
  imports Main "HOL-Library.Word" "HOL-Library.Sublist" "HOL-Library.Multiset"
begin

unbundle bit_operations_syntax

section \<open>Code units, sizes and errors\<close>

text \<open>
  \<^verbatim>\<open>char16_t\<close> is a 16-bit word and \<^verbatim>\<open>size_t\<close> a 64-bit word, so that
  \<open>getSize() - 1\<close> and \<open>start + direction * ind\<close> wrap around as they do in the program.
  A failed \<^verbatim>\<open>assert\<close> and a read or write outside the addressed object are values of
  type \<open>error\<close>; every operation that can reach one returns \<open>error + 'a\<close>.
\<close>

type_synonym char16 = "16 word"
type_synonym size_t = "64 word"

datatype error = AssertionFailed | OutOfBounds

text \<open>\<^verbatim>\<open>const char16_t UTF16_NEWLINE = char16_t(0xfeff000a);\<close> The literal is a 32-bit
  value; the conversion to \<^verbatim>\<open>char16_t\<close> keeps its low 16 bits.\<close>

definition UTF16_NEWLINE :: char16 where
  "UTF16_NEWLINE = ucast (0xfeff000a :: 32 word)"

text \<open>\<^verbatim>\<open>htobe16\<close> on a little-endian host (the one on which the program reads
  little-endian UTF-16 files unit by unit): the two bytes are exchanged.\<close>

definition htobe16 :: "char16 \<Rightarrow> char16" where
  "htobe16 c = (push_bit 8 c) OR (drop_bit 8 c)"

definition utf16_comp_le :: "char16 \<Rightarrow> char16 \<Rightarrow> int" where
  "utf16_comp_le c1 c2 =
     (let c1' = htobe16 c1; c2' = htobe16 c2
      in if c1' < c2' then -1 else if c1' = c2' then 0 else 1)"

section \<open>IntegratedString: a line as a part of the buffer\<close>

text \<open>
  Memory is one sequence of code units; a pointer is an index into it, or \<open>None\<close> for
  \<^verbatim>\<open>nullptr\<close>. An \<open>IntegratedString\<close> is the pair of the source: pointer and length.
  The members of the source end in an underscore (\<^verbatim>\<open>ptr_\<close>, \<^verbatim>\<open>size_\<close>, \<^verbatim>\<open>nLines_\<close>),
  which is not a name here: the underscore is written \<open>_m\<close>.
\<close>

type_synonym memory = "char16 list"

record IntegratedString =
  ptr_m :: "nat option"
  size_m :: size_t

text \<open>The default constructor: \<^verbatim>\<open>ptr_(nullptr), size_(0)\<close>.\<close>

definition IntegratedString_default :: IntegratedString where
  "IntegratedString_default = \<lparr>ptr_m = None, size_m = 0\<rparr>"

definition getSize :: "IntegratedString \<Rightarrow> size_t" where
  "getSize s = size_m s"

definition getPtr :: "IntegratedString \<Rightarrow> nat option" where
  "getPtr s = ptr_m s"

text \<open>
  \<^verbatim>\<open>ptr[k]\<close> for the pointer of the view \<open>s\<close>. The access is in bounds when the
  pointer is not null, the index is below the size of the view and the addressed unit
  exists in memory; any other access is \<open>OutOfBounds\<close>.
\<close>

definition deref :: "memory \<Rightarrow> IntegratedString \<Rightarrow> size_t \<Rightarrow> error + char16" where
  "deref mem s k =
     (case ptr_m s of
        None \<Rightarrow> Inl OutOfBounds
      | Some p \<Rightarrow>
          if k < size_m s \<and> p + unat k < length mem then Inr (mem ! (p + unat k))
          else Inl OutOfBounds)"

definition N_PROHIBITED :: nat where
  "N_PROHIBITED = 11"

text \<open>\<^verbatim>\<open>u".,!:;\"?-() "\<close>\<close>

definition PROHIBITED :: "char16 list" where
  "PROHIBITED = [0x2E, 0x2C, 0x21, 0x3A, 0x3B, 0x22, 0x3F, 0x2D, 0x28, 0x29, 0x20]"

definition isProhibitedSymbol :: "char16 \<Rightarrow> bool" where
  "isProhibitedSymbol c = list_ex (\<lambda>i. PROHIBITED ! i = c) [0..<N_PROHIBITED]"

text \<open>\<open>skipProhibited\<close> returns its boolean together with the new value of \<open>*ind\<close>.
  The \<^verbatim>\<open>int\<close> direction is converted to \<^verbatim>\<open>size_t\<close> by the multiplication.\<close>

definition skipProhibited ::
  "memory \<Rightarrow> IntegratedString \<Rightarrow> size_t \<Rightarrow> size_t \<Rightarrow> int \<Rightarrow> error + (bool \<times> size_t)" where
  "skipProhibited mem s start ind direction =
     (case deref mem s (start + word_of_int direction * ind) of
        Inl e \<Rightarrow> Inl e
      | Inr c \<Rightarrow> if isProhibitedSymbol c then Inr (True, ind + 1) else Inr (False, ind))"

function advanceUntilNotProhibited ::
  "memory \<Rightarrow> IntegratedString \<Rightarrow> size_t \<Rightarrow> size_t \<Rightarrow> size_t \<Rightarrow> int \<Rightarrow> error + size_t" where
  "advanceUntilNotProhibited mem s start sz ind direction =
     (if ind < sz then
        (case deref mem s (start + word_of_int direction * ind) of
           Inl e \<Rightarrow> Inl e
         | Inr c \<Rightarrow>
             if isProhibitedSymbol c
             then advanceUntilNotProhibited mem s start sz (ind + 1) direction
             else Inr ind)
      else Inr ind)"
  by pat_completeness auto
termination
proof -
  have inc: "unat (i + 1) = Suc (unat i)" if "i < n" for i n :: size_t
  proof -
    have "unat i < unat n" using that by (simp add: word_less_nat_alt)
    moreover have "unat n < 2 ^ 64" using unsigned_less [of n] by simp
    ultimately have "unat i + 1 < 2 ^ 64" by simp
    then show ?thesis by (simp add: unat_word_ariths)
  qed
  show ?thesis
    by (relation "measure (\<lambda>(mem, s, start, sz, ind, direction). unat sz - unat ind)")
       (auto simp: inc word_less_nat_alt)
qed

declare advanceUntilNotProhibited.simps [simp del]

text \<open>The \<^verbatim>\<open>while\<close> loop of \<open>directionalCompare\<close> together with the statements after it:
  the value is the value the function returns when the loop is entered with the given
  \<open>indLHS\<close> and \<open>indRHS\<close>.\<close>

function directionalCompare_loop ::
  "memory \<Rightarrow> IntegratedString \<Rightarrow> IntegratedString \<Rightarrow> size_t \<Rightarrow> size_t \<Rightarrow> int
     \<Rightarrow> size_t \<Rightarrow> size_t \<Rightarrow> error + bool" where
  "directionalCompare_loop mem this that startLHS startRHS direction indLHS indRHS =
     (if indLHS < getSize this \<and> indRHS < getSize that then
        (case skipProhibited mem this startLHS indLHS direction of
           Inl e \<Rightarrow> Inl e
         | Inr (skippedL, indLHS') \<Rightarrow>
             if skippedL
             then directionalCompare_loop mem this that startLHS startRHS direction
                    indLHS' indRHS
             else
               (case skipProhibited mem that startRHS indRHS direction of
                  Inl e \<Rightarrow> Inl e
                | Inr (skippedR, indRHS') \<Rightarrow>
                    if skippedR
                    then directionalCompare_loop mem this that startLHS startRHS direction
                           indLHS' indRHS'
                    else
                      (case deref mem this (startLHS + word_of_int direction * indLHS') of
                         Inl e \<Rightarrow> Inl e
                       | Inr cL \<Rightarrow>
                           (case deref mem that (startRHS + word_of_int direction * indRHS') of
                              Inl e \<Rightarrow> Inl e
                            | Inr cR \<Rightarrow>
                                let comp_res = utf16_comp_le cL cR in
                                if comp_res < 0 then Inr True
                                else if comp_res > 0 then Inr False
                                else directionalCompare_loop mem this that startLHS startRHS
                                       direction (indLHS' + 1) (indRHS' + 1)))))
      else
        (case advanceUntilNotProhibited mem this startLHS (getSize this) indLHS direction of
           Inl e \<Rightarrow> Inl e
         | Inr indLHS' \<Rightarrow>
             (case advanceUntilNotProhibited mem that startRHS (getSize that) indRHS direction of
                Inl e \<Rightarrow> Inl e
              | Inr indRHS' \<Rightarrow> Inr (indLHS' \<ge> getSize this \<and> indRHS' < getSize that))))"
  by pat_completeness auto
termination
proof -
  have inc: "unat (i + 1) = Suc (unat i)" if "i < n" for i n :: size_t
  proof -
    have "unat i < unat n" using that by (simp add: word_less_nat_alt)
    moreover have "unat n < 2 ^ 64" using unsigned_less [of n] by simp
    ultimately have "unat i + 1 < 2 ^ 64" by simp
    then show ?thesis by (simp add: unat_word_ariths)
  qed
  show ?thesis
    by (relation "measure (\<lambda>(mem, this, that, startLHS, startRHS, direction, indLHS, indRHS).
          (unat (getSize this) - unat indLHS) + (unat (getSize that) - unat indRHS))")
       (auto simp: skipProhibited_def inc word_less_nat_alt split: sum.splits if_splits)
qed

declare directionalCompare_loop.simps [simp del]

definition directionalCompare ::
  "memory \<Rightarrow> IntegratedString \<Rightarrow> IntegratedString \<Rightarrow> size_t \<Rightarrow> size_t \<Rightarrow> int \<Rightarrow> error + bool" where
  "directionalCompare mem this that startLHS startRHS direction =
     (if \<bar>direction\<bar> = 1
      then directionalCompare_loop mem this that startLHS startRHS direction 0 0
      else Inl AssertionFailed)"

text \<open>\<^verbatim>\<open>operator <\<close>: the default arguments \<open>0, 0, 1\<close>.\<close>

definition operator_less :: "memory \<Rightarrow> IntegratedString \<Rightarrow> IntegratedString \<Rightarrow> error + bool" where
  "operator_less mem this that = directionalCompare mem this that 0 0 1"

definition compareReversed :: "memory \<Rightarrow> IntegratedString \<Rightarrow> IntegratedString \<Rightarrow> error + bool" where
  "compareReversed mem this that =
     directionalCompare mem this that (getSize this - 1) (getSize that - 1) (-1)"

definition reverseStringComparator ::
  "memory \<Rightarrow> IntegratedString \<Rightarrow> IntegratedString \<Rightarrow> error + bool" where
  "reverseStringComparator mem lhs rhs = compareReversed mem lhs rhs"

text \<open>
  The earlier copy of the comparator, \<^verbatim>\<open>src/unnamed/part_000\<close>. It has no helper functions:
  the two tests of the loop body and the two loops after it are written in place (the
  loops after it are those of \<open>advanceUntilNotProhibited\<close>). Its loop guard is
  \<^verbatim>\<open>indLHS < getSize() && indRHS < getSize()\<close>: the right cursor is compared with the size
  of the left view. The two public comparators call it as those of \<^verbatim>\<open>Text.h\<close> do.
\<close>

function directionalCompare_loop_part_000 ::
  "memory \<Rightarrow> IntegratedString \<Rightarrow> IntegratedString \<Rightarrow> size_t \<Rightarrow> size_t \<Rightarrow> int
     \<Rightarrow> size_t \<Rightarrow> size_t \<Rightarrow> error + bool" where
  "directionalCompare_loop_part_000 mem this that startLHS startRHS direction indLHS indRHS =
     (if indLHS < getSize this \<and> indRHS < getSize this then
        (case deref mem this (startLHS + word_of_int direction * indLHS) of
           Inl e \<Rightarrow> Inl e
         | Inr cL \<Rightarrow>
             if isProhibitedSymbol cL
             then directionalCompare_loop_part_000 mem this that startLHS startRHS direction
                    (indLHS + 1) indRHS
             else
               (case deref mem that (startRHS + word_of_int direction * indRHS) of
                  Inl e \<Rightarrow> Inl e
                | Inr cR \<Rightarrow>
                    if isProhibitedSymbol cR
                    then directionalCompare_loop_part_000 mem this that startLHS startRHS
                           direction indLHS (indRHS + 1)
                    else
                      let comp_res = utf16_comp_le cL cR in
                      if comp_res < 0 then Inr True
                      else if comp_res > 0 then Inr False
                      else directionalCompare_loop_part_000 mem this that startLHS startRHS
                             direction (indLHS + 1) (indRHS + 1)))
      else
        (case advanceUntilNotProhibited mem this startLHS (getSize this) indLHS direction of
           Inl e \<Rightarrow> Inl e
         | Inr indLHS' \<Rightarrow>
             (case advanceUntilNotProhibited mem that startRHS (getSize that) indRHS direction of
                Inl e \<Rightarrow> Inl e
              | Inr indRHS' \<Rightarrow> Inr (indLHS' \<ge> getSize this \<and> indRHS' < getSize that))))"
  by pat_completeness auto
termination
proof -
  have inc: "unat (i + 1) = Suc (unat i)" if "i < n" for i n :: size_t
  proof -
    have "unat i < unat n" using that by (simp add: word_less_nat_alt)
    moreover have "unat n < 2 ^ 64" using unsigned_less [of n] by simp
    ultimately have "unat i + 1 < 2 ^ 64" by simp
    then show ?thesis by (simp add: unat_word_ariths)
  qed
  show ?thesis
    by (relation "measure (\<lambda>(mem, this, that, startLHS, startRHS, direction, indLHS, indRHS).
          (unat (getSize this) - unat indLHS) + (unat (getSize this) - unat indRHS))")
       (auto simp: inc word_less_nat_alt)
qed

declare directionalCompare_loop_part_000.simps [simp del]

definition directionalCompare_part_000 ::
  "memory \<Rightarrow> IntegratedString \<Rightarrow> IntegratedString \<Rightarrow> size_t \<Rightarrow> size_t \<Rightarrow> int \<Rightarrow> error + bool" where
  "directionalCompare_part_000 mem this that startLHS startRHS direction =
     (if \<bar>direction\<bar> = 1
      then directionalCompare_loop_part_000 mem this that startLHS startRHS direction 0 0
      else Inl AssertionFailed)"

definition operator_less_part_000 ::
  "memory \<Rightarrow> IntegratedString \<Rightarrow> IntegratedString \<Rightarrow> error + bool" where
  "operator_less_part_000 mem this that = directionalCompare_part_000 mem this that 0 0 1"

definition compareReversed_part_000 ::
  "memory \<Rightarrow> IntegratedString \<Rightarrow> IntegratedString \<Rightarrow> error + bool" where
  "compareReversed_part_000 mem this that =
     directionalCompare_part_000 mem this that (getSize this - 1) (getSize that - 1) (-1)"

section \<open>LineOrder and Text\<close>

text \<open>
  An array is the list of its elements; the buffer of a \<open>Text\<close> is the memory its views
  point into, and a view's pointer is an index into the buffer. The counters
  \<^verbatim>\<open>nSymbols_\<close>, \<^verbatim>\<open>nLines_\<close> and the loop indices are \<^verbatim>\<open>size_t\<close> values that
  count elements of arrays held in memory; they are natural numbers here, and the one
  subtraction on them that can wrap around, \<^verbatim>\<open>nLines_ - 1\<close> in \<open>shrinkEmptyLines\<close>, is
  written out modulo \<open>2 ^ 64\<close>. Every indexed access is checked against the array.
\<close>

record LineOrder =
  lines_m :: "IntegratedString list"

record Text =
  buffer_m :: "char16 list"
  nSymbols_m :: nat
  nLines_m :: nat
  strings_m :: "IntegratedString list"
  original_m :: "IntegratedString list"

text \<open>\<^verbatim>\<open>utf16_count\<close>: the scan stops at the first NUL unit; running off the end of the
  array before one is found is an out-of-bounds read.\<close>

function utf16_count_loop :: "char16 list \<Rightarrow> char16 \<Rightarrow> nat \<Rightarrow> nat \<Rightarrow> error + nat" where
  "utf16_count_loop str symbol answer i =
     (if i < length str then
        (if str ! i \<noteq> 0
         then utf16_count_loop str symbol (answer + (if str ! i = symbol then 1 else 0)) (i + 1)
         else Inr answer)
      else Inl OutOfBounds)"
  by pat_completeness auto
termination
  by (relation "measure (\<lambda>(str, symbol, answer, i). length str - i)") auto

declare utf16_count_loop.simps [simp del]

definition utf16_count :: "char16 list \<Rightarrow> char16 \<Rightarrow> error + nat" where
  "utf16_count str symbol = utf16_count_loop str symbol 0 0"

text \<open>The \<^verbatim>\<open>for\<close> loop of \<open>separateBufferIntoLines\<close>. The state is the loop index, the
  three local variables and the two arrays the body writes to.\<close>

function separateBufferIntoLines_loop ::
  "nat \<Rightarrow> nat \<Rightarrow> nat \<Rightarrow> nat \<Rightarrow> nat \<Rightarrow> IntegratedString list \<Rightarrow> char16 list
     \<Rightarrow> error + (nat \<times> nat \<times> nat \<times> IntegratedString list \<times> char16 list)" where
  "separateBufferIntoLines_loop nSymbols i currLength currLine currBeginning strings buffer =
     (if i < nSymbols then
        (if i < length buffer then
           (if buffer ! i \<noteq> 0x0A
            then separateBufferIntoLines_loop nSymbols (i + 1) (currLength + 1) currLine
                   currBeginning strings buffer
            else if currLine < length strings
            then separateBufferIntoLines_loop nSymbols (i + 1) 0 (currLine + 1) (i + 1)
                   (strings[currLine :=
                      \<lparr>ptr_m = Some currBeginning, size_m = word_of_nat currLength\<rparr>])
                   (buffer[i := 0])
            else Inl OutOfBounds)
         else Inl OutOfBounds)
      else Inr (currLength, currLine, currBeginning, strings, buffer))"
  by pat_completeness auto
termination
  by (relation "measure (\<lambda>(nSymbols, i, currLength, currLine, currBeginning, strings, buffer).
        nSymbols - i)") auto

declare separateBufferIntoLines_loop.simps [simp del]

definition separateBufferIntoLines :: "Text \<Rightarrow> error + Text" where
  "separateBufferIntoLines t =
     (case utf16_count (buffer_m t) 0x0A of
        Inl e \<Rightarrow> Inl e
      | Inr n \<Rightarrow>
          let nLines = n + 1;
              strings = replicate nLines IntegratedString_default
          in (case separateBufferIntoLines_loop (nSymbols_m t) 1 0 0 1 strings (buffer_m t) of
                Inl e \<Rightarrow> Inl e
              | Inr (currLength, currLine, currBeginning, strings', buffer') \<Rightarrow>
                  if currLine < length strings'
                  then Inr (t\<lparr>buffer_m := buffer', nLines_m := nLines,
                              strings_m := strings'[currLine :=
                                \<lparr>ptr_m = Some currBeginning,
                                 size_m = word_of_nat currLength\<rparr>]\<rparr>)
                  else Inl OutOfBounds))"

text \<open>\<^verbatim>\<open>while (strings_[nLines_ - 1].getSize() == 0 && nLines_ > 0) --nLines_;\<close>
  The left operand of \<^verbatim>\<open>&&\<close> is evaluated first, with the index \<^verbatim>\<open>nLines_ - 1\<close> computed
  in \<^verbatim>\<open>size_t\<close>.\<close>

function shrinkEmptyLines :: "Text \<Rightarrow> error + Text" where
  "shrinkEmptyLines t =
     (let idx = (nLines_m t + 2 ^ 64 - 1) mod 2 ^ 64
      in if idx < length (strings_m t)
         then (if getSize (strings_m t ! idx) = 0 \<and> nLines_m t > 0
               then shrinkEmptyLines (t\<lparr>nLines_m := nLines_m t - 1\<rparr>)
               else Inr t)
         else Inl OutOfBounds)"
  by pat_completeness auto
termination
  by (relation "measure nLines_m") auto

declare shrinkEmptyLines.simps [simp del]

definition setOriginal :: "Text \<Rightarrow> error + Text" where
  "setOriginal t =
     (if nLines_m t \<le> length (strings_m t)
      then Inr (t\<lparr>original_m := take (nLines_m t) (strings_m t)\<rparr>)
      else Inl OutOfBounds)"

text \<open>
  \<open>loadFromFile\<close>. The file is the sequence of code units \<^verbatim>\<open>fread\<close> delivers, or \<open>None\<close>
  when it cannot be read (\<^verbatim>\<open>assert(false)\<close>). \<^verbatim>\<open>new char16_t[nSymbols_ + 2]\<close> is not
  initialised: the two units behind the file's content are whatever the allocation held,
  the pair \<open>tail\<close>.
\<close>

definition loadFromFile :: "char16 list option \<Rightarrow> char16 \<times> char16 \<Rightarrow> error + Text" where
  "loadFromFile file tail =
     (case file of
        None \<Rightarrow> Inl AssertionFailed
      | Some units \<Rightarrow>
          (case separateBufferIntoLines
                  \<lparr>buffer_m = units @ [fst tail, snd tail], nSymbols_m = length units,
                   nLines_m = 0,
                   strings_m = [], original_m = []\<rparr> of
             Inl e \<Rightarrow> Inl e
           | Inr t \<Rightarrow>
               (case shrinkEmptyLines t of
                  Inl e \<Rightarrow> Inl e
                | Inr t' \<Rightarrow> setOriginal t')))"

text \<open>\<^verbatim>\<open>fwrite(ptr, sizeof(char16_t), n, output)\<close>: the \<open>n\<close> units read from \<open>ptr\<close>.\<close>

definition fwrite_units :: "memory \<Rightarrow> nat option \<Rightarrow> size_t \<Rightarrow> error + char16 list" where
  "fwrite_units mem ptr n =
     (if n = 0 then Inr []
      else (case ptr of
              None \<Rightarrow> Inl OutOfBounds
            | Some p \<Rightarrow>
                if p + unat n \<le> length mem then Inr (take (unat n) (drop p mem))
                else Inl OutOfBounds))"

function printToFile_loop :: "Text \<Rightarrow> nat \<Rightarrow> char16 list \<Rightarrow> error + char16 list" where
  "printToFile_loop t i output =
     (if i < nLines_m t then
        (if i < length (strings_m t) then
           (case fwrite_units (buffer_m t) (getPtr (strings_m t ! i))
                   (getSize (strings_m t ! i)) of
              Inl e \<Rightarrow> Inl e
            | Inr units \<Rightarrow> printToFile_loop t (i + 1) (output @ units @ [UTF16_NEWLINE]))
         else Inl OutOfBounds)
      else Inr output)"
  by pat_completeness auto
termination
  by (relation "measure (\<lambda>(t, i, output). nLines_m t - i)") auto

declare printToFile_loop.simps [simp del]

text \<open>The output file is the sequence of units written to it so far, \<open>None\<close> for a null
  \<^verbatim>\<open>FILE*\<close>; the result is the file after the call.\<close>

definition printToFile :: "Text \<Rightarrow> char16 list option \<Rightarrow> error + char16 list" where
  "printToFile t output =
     (case output of
        None \<Rightarrow> Inl AssertionFailed
      | Some written \<Rightarrow>
          (case fwrite_units (buffer_m t) (Some 0) 1 of
             Inl e \<Rightarrow> Inl e
           | Inr marker \<Rightarrow> printToFile_loop t 0 (written @ marker)))"

text \<open>
  \<^verbatim>\<open>std::sort(strings_, strings_ + nLines_, comp)\<close>. The library's algorithm is the
  parameter \<open>std_sort\<close>: from the comparator and the contents of the range to the contents
  of the range after the call.
\<close>

definition sort_Text ::
  "((IntegratedString \<Rightarrow> IntegratedString \<Rightarrow> bool) \<Rightarrow> IntegratedString list
      \<Rightarrow> IntegratedString list)
     \<Rightarrow> (IntegratedString \<Rightarrow> IntegratedString \<Rightarrow> bool) \<Rightarrow> Text \<Rightarrow> error + Text" where
  "sort_Text std_sort cmp t =
     (if nLines_m t \<le> length (strings_m t)
      then Inr (t\<lparr>strings_m := std_sort cmp (take (nLines_m t) (strings_m t))
                                @ drop (nLines_m t) (strings_m t)\<rparr>)
      else Inl OutOfBounds)"

definition getOrder :: "Text \<Rightarrow> error + LineOrder" where
  "getOrder t =
     (if nLines_m t \<le> length (strings_m t)
      then Inr \<lparr>lines_m = take (nLines_m t) (strings_m t)\<rparr>
      else Inl OutOfBounds)"

definition setOrder :: "LineOrder \<Rightarrow> Text \<Rightarrow> error + Text" where
  "setOrder order t =
     (if length (lines_m order) = nLines_m t
      then (if nLines_m t \<le> length (strings_m t)
            then Inr (t\<lparr>strings_m := lines_m order @ drop (nLines_m t) (strings_m t)\<rparr>)
            else Inl OutOfBounds)
      else Inl AssertionFailed)"

definition recoverOriginal :: "Text \<Rightarrow> error + Text" where
  "recoverOriginal t =
     (if nLines_m t \<le> length (strings_m t) \<and> nLines_m t \<le> length (original_m t)
      then Inr (t\<lparr>strings_m := take (nLines_m t) (original_m t)
                                @ drop (nLines_m t) (strings_m t)\<rparr>)
      else Inl OutOfBounds)"

section \<open>Notions of the specification\<close>

text \<open>
  The claims speak of the content of a line view, of its content with the ignorable
  characters removed, and of one content being a prefix of the other. A view is valid
  in a memory when it is empty or its pointer and length address units of the memory.
\<close>

definition valid :: "memory \<Rightarrow> IntegratedString \<Rightarrow> bool" where
  "valid mem s \<longleftrightarrow>
     size_m s = 0 \<or>
     (case ptr_m s of None \<Rightarrow> False | Some p \<Rightarrow> p + unat (size_m s) \<le> length mem)"

definition content :: "memory \<Rightarrow> IntegratedString \<Rightarrow> char16 list" where
  "content mem s =
     (case ptr_m s of None \<Rightarrow> [] | Some p \<Rightarrow> take (unat (size_m s)) (drop p mem))"

definition strip :: "char16 list \<Rightarrow> char16 list" where
  "strip xs = filter (\<lambda>c. \<not> isProhibitedSymbol c) xs"

text \<open>The two sequences agree up to a position where the unit of the first is the smaller
  one for \<open>utf16_comp_le\<close>.\<close>

definition first_difference_less :: "char16 list \<Rightarrow> char16 list \<Rightarrow> bool" where
  "first_difference_less xs ys \<longleftrightarrow>
     (\<exists>us x vs y ws. xs = us @ x # vs \<and> ys = us @ y # ws \<and> utf16_comp_le x y < 0)"

text \<open>Lexicographic order of the stripped sequences, unit by unit in the order of
  \<open>utf16_comp_le\<close>.\<close>

definition units_less :: "char16 list \<Rightarrow> char16 list \<Rightarrow> bool" where
  "units_less xs ys = ord_class.lexordp (map htobe16 (strip xs)) (map htobe16 (strip ys))"

text \<open>The units a scan visits: \<open>xs\<close> is what the accesses \<open>ptr[start + direction * i]\<close>
  read for \<open>i\<close> below the size.\<close>

definition scans :: "memory \<Rightarrow> IntegratedString \<Rightarrow> size_t \<Rightarrow> int \<Rightarrow> char16 list \<Rightarrow> bool" where
  "scans mem s start d xs \<longleftrightarrow>
     length xs = unat (size_m s) \<and>
     (\<forall>i. i < size_m s \<longrightarrow> deref mem s (start + word_of_int d * i) = Inr (xs ! unat i))"

text \<open>Splitting a sequence at every separator: the lines are the runs between
  consecutive separators, before the first and after the last one.\<close>

fun split_lines :: "char16 list \<Rightarrow> char16 list list" where
  "split_lines [] = [[]]"
| "split_lines (x # xs) =
     (if x = 0x0A then [] # split_lines xs
      else (case split_lines xs of [] \<Rightarrow> [[x]] | l # ls \<Rightarrow> (x # l) # ls))"

text \<open>The views the split writes, as pairs of first unit and length: \<open>i\<close> is the index
  of the next unit, \<open>b\<close> and \<open>cl\<close> are the beginning and the length of the line being
  read. \<open>terminate_lines\<close> is what the split leaves in the buffer: every separator
  replaced by NUL.\<close>

fun line_spans :: "nat \<Rightarrow> nat \<Rightarrow> nat \<Rightarrow> char16 list \<Rightarrow> (nat \<times> nat) list" where
  "line_spans i b cl [] = [(b, cl)]"
| "line_spans i b cl (x # xs) =
     (if x = 0x0A then (b, cl) # line_spans (i + 1) (i + 1) 0 xs
      else line_spans (i + 1) b (cl + 1) xs)"

definition span_view :: "nat \<times> nat \<Rightarrow> IntegratedString" where
  "span_view sp = \<lparr>ptr_m = Some (fst sp), size_m = word_of_nat (snd sp)\<rparr>"

definition terminate_lines :: "char16 list \<Rightarrow> char16 list" where
  "terminate_lines xs = map (\<lambda>x. if x = 0x0A then 0 else x) xs"

section \<open>The comparator\<close>

subsection \<open>What a scan reads\<close>

lemma unat_inc_below: "(i :: size_t) < n \<Longrightarrow> unat (i + 1) = Suc (unat i)"
proof -
  assume "i < n"
  then have "unat i < unat n" by (simp add: word_less_nat_alt)
  moreover have "unat n < 2 ^ 64" using unsigned_less [of n] by simp
  ultimately have "unat i + 1 < 2 ^ 64" by simp
  then show ?thesis by (simp add: unat_word_ariths)
qed

lemma length_content: "valid mem s \<Longrightarrow> length (content mem s) = unat (size_m s)"
  by (auto simp: valid_def content_def split: option.splits)

lemma scans_forward: "valid mem s \<Longrightarrow> scans mem s 0 1 (content mem s)"
  by (auto simp: scans_def length_content deref_def valid_def content_def word_less_nat_alt
           split: option.splits)

lemma back_index: "(i :: size_t) < n \<Longrightarrow> unat (n - 1 - i) = unat n - 1 - unat i"
proof -
  assume a: "i < n"
  then have le: "i + 1 \<le> n" by (rule inc_le)
  have eq: "n - 1 - i = n - (i + 1)" by simp
  show ?thesis unfolding eq using le a by (simp add: unat_sub unat_inc_below)
qed

lemma scans_backward:
  assumes "valid mem s"
  shows "scans mem s (size_m s - 1) (-1) (rev (content mem s))"
proof -
  have len: "length (content mem s) = unat (size_m s)" using assms by (rule length_content)
  have "deref mem s (size_m s - 1 + word_of_int (-1) * i) = Inr (rev (content mem s) ! unat i)"
    if i: "i < size_m s" for i
  proof -
    obtain p where p: "ptr_m s = Some p" "p + unat (size_m s) \<le> length mem"
      using assms i by (auto simp: valid_def split: option.splits)
    have ui: "unat i < unat (size_m s)" using i by (simp add: word_less_nat_alt)
    have k: "unat (size_m s - 1 - i) = unat (size_m s) - 1 - unat i"
      using i by (rule back_index)
    then have lt: "size_m s - 1 - i < size_m s" using ui by (simp add: word_less_nat_alt)
    have "rev (content mem s) ! unat i = content mem s ! (unat (size_m s) - 1 - unat i)"
      using ui len by (simp add: rev_nth)
    also have "\<dots> = mem ! (p + (unat (size_m s) - 1 - unat i))"
      using p ui by (simp add: content_def)
    finally show ?thesis using p lt ui by (simp add: deref_def k)
  qed
  then show ?thesis using len by (simp add: scans_def)
qed

subsection \<open>The order of code units\<close>

lemma htobe16_involution: "htobe16 (htobe16 c) = c"
  unfolding htobe16_def by (rule bit_word_eqI) (auto simp: bit_simps)

lemma htobe16_inject: "htobe16 a = htobe16 b \<longleftrightarrow> a = b"
  by (metis htobe16_involution)

lemma utf16_comp_le_neg: "utf16_comp_le a b < 0 \<longleftrightarrow> htobe16 a < htobe16 b"
  by (simp add: utf16_comp_le_def Let_def)

lemma utf16_comp_le_pos: "utf16_comp_le a b > 0 \<longleftrightarrow> htobe16 b < htobe16 a"
  by (auto simp: utf16_comp_le_def Let_def)

subsection \<open>The loops\<close>

lemma advance_scans:
  assumes sc: "scans mem s start d xs"
  shows "ind \<le> size_m s \<Longrightarrow>
         \<exists>ind'. advanceUntilNotProhibited mem s start (size_m s) ind d = Inr ind' \<and>
                ind' \<le> size_m s \<and>
                (ind' < size_m s \<longleftrightarrow> strip (drop (unat ind) xs) \<noteq> [])"
proof (induction "unat (size_m s) - unat ind" arbitrary: ind rule: less_induct)
  case less
  show ?case
  proof (cases "ind < size_m s")
    case False
    then have "ind = size_m s" using less.prems by simp
    then show ?thesis using sc
      by (subst advanceUntilNotProhibited.simps) (simp add: scans_def strip_def)
  next
    case True
    then have ui: "unat ind < length xs" using sc by (simp add: scans_def word_less_nat_alt)
    have d: "deref mem s (start + word_of_int d * ind) = Inr (xs ! unat ind)"
      using sc True by (simp add: scans_def)
    have dr: "drop (unat ind) xs = xs ! unat ind # drop (unat (ind + 1)) xs"
      using ui True by (simp add: Cons_nth_drop_Suc unat_inc_below)
    show ?thesis
    proof (cases "isProhibitedSymbol (xs ! unat ind)")
      case False
      then show ?thesis using True d dr
        by (subst advanceUntilNotProhibited.simps) (simp add: strip_def)
    next
      case p: True
      have le: "ind + 1 \<le> size_m s" using True by (rule inc_le)
      have m: "unat (size_m s) - unat (ind + 1) < unat (size_m s) - unat ind"
        using True by (simp add: unat_inc_below word_less_nat_alt)
      from less.hyps [OF m le] obtain ind' where
        "advanceUntilNotProhibited mem s start (size_m s) (ind + 1) d = Inr ind'"
        "ind' \<le> size_m s" "ind' < size_m s \<longleftrightarrow> strip (drop (unat (ind + 1)) xs) \<noteq> []"
        by blast
      then show ?thesis using True d dr p
        by (subst advanceUntilNotProhibited.simps) (simp add: strip_def)
    qed
  qed
qed

lemma loop_scans:
  assumes sa: "scans mem a sL d xs" and sb: "scans mem b sR d ys"
  shows "iL \<le> size_m a \<Longrightarrow> iR \<le> size_m b \<Longrightarrow>
         directionalCompare_loop mem a b sL sR d iL iR =
           Inr (units_less (drop (unat iL) xs) (drop (unat iR) ys))"
proof (induction "(unat (size_m a) - unat iL) + (unat (size_m b) - unat iR)"
         arbitrary: iL iR rule: less_induct)
  case less
  show ?case
  proof (cases "iL < size_m a \<and> iR < size_m b")
    case False
    obtain iL' where L: "advanceUntilNotProhibited mem a sL (size_m a) iL d = Inr iL'"
      "iL' \<le> size_m a" "iL' < size_m a \<longleftrightarrow> strip (drop (unat iL) xs) \<noteq> []"
      using advance_scans [OF sa less.prems(1)] by blast
    obtain iR' where R: "advanceUntilNotProhibited mem b sR (size_m b) iR d = Inr iR'"
      "iR' \<le> size_m b" "iR' < size_m b \<longleftrightarrow> strip (drop (unat iR) ys) \<noteq> []"
      using advance_scans [OF sb less.prems(2)] by blast
    from False have "iL = size_m a \<or> iR = size_m b" using less.prems by auto
    then have e: "drop (unat iL) xs = [] \<or> drop (unat iR) ys = []"
      using sa sb by (auto simp: scans_def)
    have "(size_m a \<le> iL' \<and> iR' < size_m b) =
          units_less (drop (unat iL) xs) (drop (unat iR) ys)"
      using e L(2,3) R(3) by (auto simp: units_less_def strip_def)
    moreover have "directionalCompare_loop mem a b sL sR d iL iR =
        (case advanceUntilNotProhibited mem a sL (size_m a) iL d of
           Inl e \<Rightarrow> Inl e
         | Inr indLHS' \<Rightarrow>
             (case advanceUntilNotProhibited mem b sR (size_m b) iR d of
                Inl e \<Rightarrow> Inl e
              | Inr indRHS' \<Rightarrow> Inr (indLHS' \<ge> size_m a \<and> indRHS' < size_m b)))"
      using False unfolding getSize_def [symmetric]
      by (subst directionalCompare_loop.simps) (simp only: if_False)
    ultimately show ?thesis using L(1) R(1) by simp
  next
    case True
    then have tl: "iL < size_m a" and tr: "iR < size_m b" by simp_all
    have ul: "unat iL < length xs" using sa tl by (simp add: scans_def word_less_nat_alt)
    have ur: "unat iR < length ys" using sb tr by (simp add: scans_def word_less_nat_alt)
    have dl: "deref mem a (sL + word_of_int d * iL) = Inr (xs ! unat iL)"
      using sa tl by (simp add: scans_def)
    have dr: "deref mem b (sR + word_of_int d * iR) = Inr (ys ! unat iR)"
      using sb tr by (simp add: scans_def)
    have xl: "drop (unat iL) xs = xs ! unat iL # drop (unat (iL + 1)) xs"
      using ul tl by (simp add: Cons_nth_drop_Suc unat_inc_below)
    have xr: "drop (unat iR) ys = ys ! unat iR # drop (unat (iR + 1)) ys"
      using ur tr by (simp add: Cons_nth_drop_Suc unat_inc_below)
    have lel: "iL + 1 \<le> size_m a" using tl by (rule inc_le)
    have ler: "iR + 1 \<le> size_m b" using tr by (rule inc_le)
    have ml: "unat (size_m a) - unat (iL + 1) < unat (size_m a) - unat iL"
      using tl by (simp add: unat_inc_below word_less_nat_alt)
    have mr: "unat (size_m b) - unat (iR + 1) < unat (size_m b) - unat iR"
      using tr by (simp add: unat_inc_below word_less_nat_alt)
    show ?thesis
    proof (cases "isProhibitedSymbol (xs ! unat iL)")
      case pl: True
      have "directionalCompare_loop mem a b sL sR d (iL + 1) iR =
              Inr (units_less (drop (unat (iL + 1)) xs) (drop (unat iR) ys))"
        using ml by (intro less.hyps lel less.prems) simp
      then show ?thesis using True dl pl xl
        by (subst directionalCompare_loop.simps)
           (simp add: getSize_def skipProhibited_def units_less_def strip_def)
    next
      case npl: False
      show ?thesis
      proof (cases "isProhibitedSymbol (ys ! unat iR)")
        case pr: True
        have "directionalCompare_loop mem a b sL sR d iL (iR + 1) =
                Inr (units_less (drop (unat iL) xs) (drop (unat (iR + 1)) ys))"
          using mr by (intro less.hyps ler less.prems) simp
        then show ?thesis using True dl dr npl pr xr
          by (subst directionalCompare_loop.simps)
             (simp add: getSize_def skipProhibited_def units_less_def strip_def)
      next
        case npr: False
        have ih: "directionalCompare_loop mem a b sL sR d (iL + 1) (iR + 1) =
                Inr (units_less (drop (unat (iL + 1)) xs) (drop (unat (iR + 1)) ys))"
          using ml mr by (intro less.hyps ler lel) simp
        have u: "units_less (drop (unat iL) xs) (drop (unat iR) ys) =
                 (htobe16 (xs ! unat iL) < htobe16 (ys ! unat iR) \<or>
                  \<not> htobe16 (ys ! unat iR) < htobe16 (xs ! unat iL) \<and>
                  units_less (drop (unat (iL + 1)) xs) (drop (unat (iR + 1)) ys))"
          using npl npr by (subst xl, subst xr) (simp add: units_less_def strip_def)
        show ?thesis using True dl dr npl npr ih
          by (subst directionalCompare_loop.simps)
             (auto simp: getSize_def skipProhibited_def u Let_def
                         utf16_comp_le_neg utf16_comp_le_pos)
      qed
    qed
  qed
qed

subsection \<open>The two public comparators\<close>

lemma operator_less_units:
  assumes "valid mem a" "valid mem b"
  shows "operator_less mem a b = Inr (units_less (content mem a) (content mem b))"
  using loop_scans [OF scans_forward [OF assms(1)] scans_forward [OF assms(2)], of 0 0]
  by (simp add: operator_less_def directionalCompare_def)

lemma compareReversed_units:
  assumes "valid mem a" "valid mem b"
  shows "compareReversed mem a b =
           Inr (units_less (rev (content mem a)) (rev (content mem b)))"
  using loop_scans [OF scans_backward [OF assms(1)] scans_backward [OF assms(2)], of 0 0]
  by (simp add: compareReversed_def directionalCompare_def getSize_def)

lemma lexordp_htobe16_iff:
  "ord_class.lexordp (map htobe16 xs) (map htobe16 ys) \<longleftrightarrow>
     strict_prefix xs ys \<or>
     (\<exists>us x vs y ws. xs = us @ x # vs \<and> ys = us @ y # ws \<and> htobe16 x < htobe16 y)"
proof (induction xs arbitrary: ys)
  case Nil
  then show ?case by (cases ys) auto
next
  case (Cons x xs)
  show ?case
  proof (cases ys)
    case Nil
    then show ?thesis by simp
  next
    case (Cons y ys')
    show ?thesis
    proof (cases "x = y")
      case True
      have "(\<exists>us a vs b ws. x # xs = us @ a # vs \<and> y # ys' = us @ b # ws \<and> htobe16 a < htobe16 b)
            \<longleftrightarrow> (\<exists>us a vs b ws. xs = us @ a # vs \<and> ys' = us @ b # ws \<and> htobe16 a < htobe16 b)"
        (is "?L \<longleftrightarrow> ?R")
      proof
        assume ?L
        then obtain us a vs b ws where
          h: "x # xs = us @ a # vs" "y # ys' = us @ b # ws" "htobe16 a < htobe16 b" by blast
        show ?R
        proof (cases us)
          case Nil then show ?thesis using h True by auto
        next
          case (Cons u us') then show ?thesis using h by auto
        qed
      next
        assume ?R
        then obtain us a vs b ws where
          h: "xs = us @ a # vs" "ys' = us @ b # ws" "htobe16 a < htobe16 b" by blast
        then have "x # xs = (x # us) @ a # vs \<and> y # ys' = (x # us) @ b # ws" using True by simp
        then show ?L using h(3) by blast
      qed
      then show ?thesis using Cons True Cons.IH [of ys'] by simp
    next
      case False
      then have ne: "htobe16 x \<noteq> htobe16 y" by (simp add: htobe16_inject)
      have "(\<exists>us a vs b ws. x # xs = us @ a # vs \<and> y # ys' = us @ b # ws \<and> htobe16 a < htobe16 b)
            \<longleftrightarrow> htobe16 x < htobe16 y" (is "?L \<longleftrightarrow> ?R")
      proof
        assume ?L
        then obtain us a vs b ws where
          h: "x # xs = us @ a # vs" "y # ys' = us @ b # ws" "htobe16 a < htobe16 b" by blast
        show ?R
        proof (cases us)
          case Nil then show ?thesis using h by auto
        next
          case (Cons u us') then show ?thesis using h False by auto
        qed
      next
        assume ?R
        then have "x # xs = [] @ x # xs \<and> y # ys' = [] @ y # ys' \<and> htobe16 x < htobe16 y"
          by simp
        then show ?L by blast
      qed
      then show ?thesis using Cons False ne by auto
    qed
  qed
qed

lemma units_less_iff:
  "units_less xs ys \<longleftrightarrow>
     strict_prefix (strip xs) (strip ys) \<or>
     (\<exists>us x vs y ws. strip xs = us @ x # vs \<and> strip ys = us @ y # ws \<and> htobe16 x < htobe16 y)"
  unfolding units_less_def by (rule lexordp_htobe16_iff)

lemma units_less_antisym: "units_less xs ys \<Longrightarrow> \<not> units_less ys xs"
  unfolding units_less_def using lexordp_antisym by blast

lemma units_less_irrefl: "strip xs = strip ys \<Longrightarrow> \<not> units_less xs ys"
  unfolding units_less_def by (simp add: lexordp_irreflexive')

lemma units_less_linear: "units_less xs ys \<or> strip xs = strip ys \<or> units_less ys xs"
proof -
  have "inj htobe16" by (rule injI) (simp add: htobe16_inject)
  then have "map htobe16 (strip xs) = map htobe16 (strip ys) \<longleftrightarrow> strip xs = strip ys"
    by (simp add: inj_map_eq_map)
  then show ?thesis unfolding units_less_def
    using lexordp_linear [of "map htobe16 (strip xs)" "map htobe16 (strip ys)"] by blast
qed

lemma isProhibitedSymbol_iff: "isProhibitedSymbol c \<longleftrightarrow> c \<in> set PROHIBITED"
  by (auto simp: isProhibitedSymbol_def N_PROHIBITED_def PROHIBITED_def list_ex_iff
           nth_Cons' less_Suc_eq numeral_eq_Suc)

lemma strip_rev: "strip (rev xs) = rev (strip xs)"
  by (simp add: strip_def rev_filter)

lemma units_less_prefix_or_difference:
  "units_less xs ys \<longleftrightarrow>
     strict_prefix (strip xs) (strip ys) \<or> first_difference_less (strip xs) (strip ys)"
  by (simp add: units_less_iff first_difference_less_def utf16_comp_le_neg)

lemma units_less_Nil_right: "\<not> units_less xs []"
  by (simp add: units_less_def strip_def)

lemma units_less_Nil_left: "units_less [] ys \<longleftrightarrow> strip ys \<noteq> []"
  by (simp add: units_less_def strip_def)

lemma content_empty: "size_m e = 0 \<Longrightarrow> content mem e = []"
  by (simp add: content_def split: option.splits)

lemma valid_empty: "size_m e = 0 \<Longrightarrow> valid mem e"
  by (simp add: valid_def)

subsection \<open>The earlier copy of the comparator\<close>

text \<open>On views of equal size the guard of the earlier copy is the guard of \<^verbatim>\<open>Text.h\<close>, and
  the two comparators agree. On views of different sizes they differ: the earlier copy
  reads behind a shorter right view, and leaves the loop too early on a longer one.\<close>

lemma loop_part_000_equal_sizes:
  assumes "getSize this = getSize that"
  shows "directionalCompare_loop_part_000 mem this that startLHS startRHS direction indLHS indRHS
         = directionalCompare_loop mem this that startLHS startRHS direction indLHS indRHS"
  using assms
proof (induction mem this that startLHS startRHS direction indLHS indRHS
         rule: directionalCompare_loop_part_000.induct)
  case (1 mem this that startLHS startRHS direction indLHS indRHS)
  show ?case
  proof (cases "indLHS < getSize this \<and> indRHS < getSize this")
    case False
    then have f2: "\<not> (indLHS < getSize this \<and> indRHS < getSize that)"
      using "1.prems" by simp
    show ?thesis
      by (subst directionalCompare_loop_part_000.simps, subst directionalCompare_loop.simps)
         (simp only: False f2 if_False)
  next
    case True
    have c1: "(indLHS < getSize this \<and> indRHS < getSize this) = True"
      using True by simp
    have c2: "(indLHS < getSize this \<and> indRHS < getSize that) = True"
      using True "1.prems" by simp
    show ?thesis
      apply (subst directionalCompare_loop_part_000.simps)
      apply (subst directionalCompare_loop.simps)
      apply (simp only: c1 c2 if_True)
      using "1.IH" True "1.prems"
      apply (auto simp: skipProhibited_def Let_def split: sum.splits)
      done
  qed
qed

lemma operator_less_part_000_equal_sizes:
  "size_m a = size_m b \<Longrightarrow> operator_less_part_000 mem a b = operator_less mem a b"
  by (simp add: operator_less_part_000_def operator_less_def directionalCompare_part_000_def
                directionalCompare_def loop_part_000_equal_sizes getSize_def)

lemma compareReversed_part_000_equal_sizes:
  "size_m a = size_m b \<Longrightarrow> compareReversed_part_000 mem a b = compareReversed mem a b"
  by (simp add: compareReversed_part_000_def compareReversed_def directionalCompare_part_000_def
                directionalCompare_def loop_part_000_equal_sizes getSize_def)

lemma part_000_reads_outside_view:
  "operator_less_part_000 [0x61, 0x62, 0x61, 0x63]
     \<lparr>ptr_m = Some 0, size_m = 2\<rparr> \<lparr>ptr_m = Some 2, size_m = 1\<rparr> = Inl OutOfBounds"
  by code_simp

lemma part_000_stops_early:
  "operator_less_part_000 [0x61, 0x62, 0x2C, 0x2C, 0x2C, 0x63]
     \<lparr>ptr_m = Some 0, size_m = 2\<rparr> \<lparr>ptr_m = Some 2, size_m = 4\<rparr> = Inr False \<and>
   operator_less [0x61, 0x62, 0x2C, 0x2C, 0x2C, 0x63]
     \<lparr>ptr_m = Some 0, size_m = 2\<rparr> \<lparr>ptr_m = Some 2, size_m = 4\<rparr> = Inr True"
  by code_simp

section \<open>Claims about the comparator\<close>

text \<open>
  C1, as stated, fails. The claim: the comparator returns "less" if and only if the
  ignorable-stripped content of \<open>a\<close> is a strict prefix of that of \<open>b\<close> in the scanned
  direction. On the one-unit lines \<open>a\<close> and \<open>b\<close> (units \<open>0x61\<close> and \<open>0x62\<close>) both
  comparators, in \<^verbatim>\<open>Text.h\<close> and in the earlier copy alike, return "less" at the first
  pair of units, and neither content is a prefix of the other.
\<close>

theorem C1_less_without_prefix_counterexample:
  "operator_less [0x61, 0x62] \<lparr>ptr_m = Some 0, size_m = 1\<rparr> \<lparr>ptr_m = Some 1, size_m = 1\<rparr>
     = Inr True \<and>
   compareReversed [0x61, 0x62] \<lparr>ptr_m = Some 0, size_m = 1\<rparr> \<lparr>ptr_m = Some 1, size_m = 1\<rparr>
     = Inr True \<and>
   operator_less_part_000 [0x61, 0x62] \<lparr>ptr_m = Some 0, size_m = 1\<rparr>
     \<lparr>ptr_m = Some 1, size_m = 1\<rparr> = Inr True \<and>
   compareReversed_part_000 [0x61, 0x62] \<lparr>ptr_m = Some 0, size_m = 1\<rparr>
     \<lparr>ptr_m = Some 1, size_m = 1\<rparr> = Inr True \<and>
   \<not> strict_prefix (strip (content [0x61, 0x62] \<lparr>ptr_m = Some 0, size_m = 1\<rparr>))
                    (strip (content [0x61, 0x62] \<lparr>ptr_m = Some 1, size_m = 1\<rparr>)) \<and>
   \<not> strict_prefix (strip (rev (content [0x61, 0x62] \<lparr>ptr_m = Some 0, size_m = 1\<rparr>)))
                    (strip (rev (content [0x61, 0x62] \<lparr>ptr_m = Some 1, size_m = 1\<rparr>)))"
proof -
  have "operator_less [0x61, 0x62] \<lparr>ptr_m = Some 0, size_m = 1\<rparr>
          \<lparr>ptr_m = Some 1, size_m = 1\<rparr> = Inr True"
    by code_simp
  moreover have "compareReversed [0x61, 0x62] \<lparr>ptr_m = Some 0, size_m = 1\<rparr>
          \<lparr>ptr_m = Some 1, size_m = 1\<rparr> = Inr True"
    by code_simp
  moreover have "operator_less_part_000 [0x61, 0x62] \<lparr>ptr_m = Some 0, size_m = 1\<rparr>
          \<lparr>ptr_m = Some 1, size_m = 1\<rparr> = Inr True"
    by code_simp
  moreover have "compareReversed_part_000 [0x61, 0x62] \<lparr>ptr_m = Some 0, size_m = 1\<rparr>
          \<lparr>ptr_m = Some 1, size_m = 1\<rparr> = Inr True"
    by code_simp
  ultimately show ?thesis
    by (simp add: strip_def content_def isProhibitedSymbol_iff PROHIBITED_def)
qed

text \<open>
  C1, amended. For valid line views \<open>a\<close> and \<open>b\<close>, in either direction, the comparator of
  \<^verbatim>\<open>Text.h\<close> returns "less" if and only if the ignorable-stripped content of \<open>a\<close>, read in
  the scanned direction, is a strict prefix of that of \<open>b\<close>, or the two agree up to a
  position where the unit of \<open>a\<close> is the smaller one for \<open>utf16_comp_le\<close>; it returns
  "not less" otherwise, in particular when the stripped contents are equal (both cursors
  exhaust together). The earlier copy of the comparator in \<^verbatim>\<open>src/unnamed/part_000\<close> returns
  the same on views of equal size; what it returns on views of different sizes, where its
  loop guard bounds the cursor of \<open>b\<close> by the size of \<open>a\<close>, is no part of the statement.
\<close>

theorem C1_less_iff_prefix_or_first_difference:
  assumes "valid mem a" and "valid mem b"
  shows "operator_less mem a b =
           Inr (strict_prefix (strip (content mem a)) (strip (content mem b)) \<or>
                first_difference_less (strip (content mem a)) (strip (content mem b))) \<and>
         compareReversed mem a b =
           Inr (strict_prefix (strip (rev (content mem a))) (strip (rev (content mem b))) \<or>
                first_difference_less (strip (rev (content mem a)))
                  (strip (rev (content mem b)))) \<and>
         (strip (content mem a) = strip (content mem b) \<longrightarrow>
            operator_less mem a b = Inr False \<and> compareReversed mem a b = Inr False) \<and>
         (size_m a = size_m b \<longrightarrow>
            operator_less_part_000 mem a b =
              Inr (strict_prefix (strip (content mem a)) (strip (content mem b)) \<or>
                   first_difference_less (strip (content mem a)) (strip (content mem b))) \<and>
            compareReversed_part_000 mem a b =
              Inr (strict_prefix (strip (rev (content mem a))) (strip (rev (content mem b))) \<or>
                   first_difference_less (strip (rev (content mem a)))
                     (strip (rev (content mem b)))))"
proof -
  have f: "operator_less mem a b =
          Inr (strict_prefix (strip (content mem a)) (strip (content mem b)) \<or>
               first_difference_less (strip (content mem a)) (strip (content mem b)))"
    using assms by (simp add: operator_less_units units_less_prefix_or_difference)
  have r: "compareReversed mem a b =
          Inr (strict_prefix (strip (rev (content mem a))) (strip (rev (content mem b))) \<or>
               first_difference_less (strip (rev (content mem a)))
                 (strip (rev (content mem b))))"
    using assms by (simp add: compareReversed_units units_less_prefix_or_difference)
  have e: "operator_less mem a b = Inr False \<and> compareReversed mem a b = Inr False"
    if "strip (content mem a) = strip (content mem b)"
    using assms that
    by (simp add: operator_less_units compareReversed_units units_less_irrefl strip_rev)
  have p: "operator_less_part_000 mem a b = operator_less mem a b \<and>
           compareReversed_part_000 mem a b = compareReversed mem a b"
    if "size_m a = size_m b"
    using that
    by (simp add: operator_less_part_000_equal_sizes compareReversed_part_000_equal_sizes)
  show ?thesis using f r e p by auto
qed

text \<open>C1, witness: the lines \<open>a,\<close> and \<open>ab\<close>, of equal size, the first "less" as a stripped
  prefix of the second for the comparator of \<^verbatim>\<open>Text.h\<close> and for the earlier copy; and
  the lines \<open>a,\<close> and \<open>a\<close>, equal once stripped and "not less" in both directions.\<close>

theorem C1_less_iff_prefix_or_first_difference_witness:
  "valid [0x61, 0x2C, 0x61, 0x62] \<lparr>ptr_m = Some 0, size_m = 2\<rparr> \<and>
   valid [0x61, 0x2C, 0x61, 0x62] \<lparr>ptr_m = Some 2, size_m = 2\<rparr> \<and>
   valid [0x61, 0x2C, 0x61, 0x62] \<lparr>ptr_m = Some 2, size_m = 1\<rparr> \<and>
   operator_less [0x61, 0x2C, 0x61, 0x62] \<lparr>ptr_m = Some 0, size_m = 2\<rparr>
     \<lparr>ptr_m = Some 2, size_m = 2\<rparr> = Inr True \<and>
   size_m \<lparr>ptr_m = Some 0, size_m = 2\<rparr> = size_m \<lparr>ptr_m = Some (2 :: nat), size_m = 2\<rparr> \<and>
   operator_less_part_000 [0x61, 0x2C, 0x61, 0x62] \<lparr>ptr_m = Some 0, size_m = 2\<rparr>
     \<lparr>ptr_m = Some 2, size_m = 2\<rparr> = Inr True \<and>
   strip (content [0x61, 0x2C, 0x61, 0x62] \<lparr>ptr_m = Some 0, size_m = 2\<rparr>) =
     strip (content [0x61, 0x2C, 0x61, 0x62] \<lparr>ptr_m = Some 2, size_m = 1\<rparr>) \<and>
   operator_less [0x61, 0x2C, 0x61, 0x62] \<lparr>ptr_m = Some 0, size_m = 2\<rparr>
     \<lparr>ptr_m = Some 2, size_m = 1\<rparr> = Inr False \<and>
   compareReversed [0x61, 0x2C, 0x61, 0x62] \<lparr>ptr_m = Some 0, size_m = 2\<rparr>
     \<lparr>ptr_m = Some 2, size_m = 1\<rparr> = Inr False"
proof -
  have a: "valid [0x61, 0x2C, 0x61, 0x62] \<lparr>ptr_m = Some 0, size_m = 2\<rparr>"
    by (simp add: valid_def)
  have b: "valid [0x61, 0x2C, 0x61, 0x62] \<lparr>ptr_m = Some 2, size_m = 2\<rparr>"
    by (simp add: valid_def)
  have c: "valid [0x61, 0x2C, 0x61, 0x62] \<lparr>ptr_m = Some 2, size_m = 1\<rparr>"
    by (simp add: valid_def)
  have e: "strip (content [0x61, 0x2C, 0x61, 0x62] \<lparr>ptr_m = Some 0, size_m = 2\<rparr>) =
           strip (content [0x61, 0x2C, 0x61, 0x62] \<lparr>ptr_m = Some 2, size_m = 1\<rparr>)"
    by (simp add: strip_def content_def isProhibitedSymbol_iff PROHIBITED_def)
  have "operator_less [0x61, 0x2C, 0x61, 0x62] \<lparr>ptr_m = Some 0, size_m = 2\<rparr>
          \<lparr>ptr_m = Some 2, size_m = 2\<rparr> = Inr True \<and>
        operator_less_part_000 [0x61, 0x2C, 0x61, 0x62] \<lparr>ptr_m = Some 0, size_m = 2\<rparr>
          \<lparr>ptr_m = Some 2, size_m = 2\<rparr> = Inr True"
    using C1_less_iff_prefix_or_first_difference [OF a b]
    by (simp add: strip_def content_def isProhibitedSymbol_iff PROHIBITED_def)
  moreover have "operator_less [0x61, 0x2C, 0x61, 0x62] \<lparr>ptr_m = Some 0, size_m = 2\<rparr>
          \<lparr>ptr_m = Some 2, size_m = 1\<rparr> = Inr False \<and>
        compareReversed [0x61, 0x2C, 0x61, 0x62] \<lparr>ptr_m = Some 0, size_m = 2\<rparr>
          \<lparr>ptr_m = Some 2, size_m = 1\<rparr> = Inr False"
    using C1_less_iff_prefix_or_first_difference [OF a c] e by blast
  ultimately show ?thesis using a b c e by simp
qed

text \<open>
  C2, as stated, fails. The claim: a zero-length view is never reported as "less" than
  any other view. The zero-length view is "less" than the line \<open>a\<close>, in both directions.
\<close>

theorem C2_empty_is_less_counterexample:
  "operator_less [0x61] \<lparr>ptr_m = Some 0, size_m = 0\<rparr> \<lparr>ptr_m = Some 0, size_m = 1\<rparr>
     = Inr True \<and>
   compareReversed [0x61] \<lparr>ptr_m = Some 0, size_m = 0\<rparr> \<lparr>ptr_m = Some 0, size_m = 1\<rparr>
     = Inr True"
proof -
  have "operator_less [0x61] \<lparr>ptr_m = Some 0, size_m = 0\<rparr> \<lparr>ptr_m = Some 0, size_m = 1\<rparr>
          = Inr True"
    by code_simp
  moreover have "compareReversed [0x61] \<lparr>ptr_m = Some 0, size_m = 0\<rparr>
                   \<lparr>ptr_m = Some 0, size_m = 1\<rparr> = Inr True"
    by code_simp
  ultimately show ?thesis by simp
qed

text \<open>
  C2, amended. In both directions no view is ever reported as "less" than a zero-length
  view, and a zero-length view is reported as "less" than a view \<open>b\<close> exactly when \<open>b\<close>
  has a character that is not ignorable: against a view of ignorable characters only,
  the comparison is "not less" in both argument positions.
\<close>

theorem C2_empty_view_comparisons:
  assumes "size_m e = 0" and "valid mem b"
  shows "operator_less mem b e = Inr False \<and>
         compareReversed mem b e = Inr False \<and>
         operator_less mem e b = Inr (strip (content mem b) \<noteq> []) \<and>
         compareReversed mem e b = Inr (strip (content mem b) \<noteq> [])"
  using assms
  by (simp add: operator_less_units compareReversed_units valid_empty content_empty
                units_less_Nil_right units_less_Nil_left strip_rev)

text \<open>C2, witness: the default view against the line \<open>.\<close>, a line of ignorable
  characters only.\<close>

theorem C2_empty_view_comparisons_witness:
  "size_m IntegratedString_default = 0 \<and>
   valid [0x2E] \<lparr>ptr_m = Some 0, size_m = 1\<rparr> \<and>
   operator_less [0x2E] \<lparr>ptr_m = Some 0, size_m = 1\<rparr> IntegratedString_default = Inr False \<and>
   operator_less [0x2E] IntegratedString_default \<lparr>ptr_m = Some 0, size_m = 1\<rparr> = Inr False"
proof -
  have e: "size_m IntegratedString_default = 0"
    by (simp add: IntegratedString_default_def)
  have b: "valid [0x2E] \<lparr>ptr_m = Some 0, size_m = 1\<rparr>"
    by (simp add: valid_def)
  show ?thesis
    using e b C2_empty_view_comparisons [OF e b]
    by (simp add: strip_def content_def isProhibitedSymbol_iff PROHIBITED_def)
qed

text \<open>
  C3. For valid line views \<open>a\<close> and \<open>b\<close> (non-empty ones in particular), exactly one of
  the three holds: \<open>a < b\<close>, \<open>b < a\<close>, or the contents of \<open>a\<close> and \<open>b\<close> are equal once
  the ignorable characters are skipped. In particular \<open>a < b\<close> and \<open>b < a\<close> never hold
  together.
\<close>

theorem C3_forward_trichotomy:
  assumes "valid mem a" and "valid mem b"
  shows "(operator_less mem a b = Inr True \<or> operator_less mem b a = Inr True \<or>
          strip (content mem a) = strip (content mem b)) \<and>
         \<not> (operator_less mem a b = Inr True \<and> operator_less mem b a = Inr True) \<and>
         \<not> (operator_less mem a b = Inr True \<and> strip (content mem a) = strip (content mem b)) \<and>
         \<not> (operator_less mem b a = Inr True \<and> strip (content mem a) = strip (content mem b))"
proof -
  let ?xs = "content mem a" and ?ys = "content mem b"
  have ab: "operator_less mem a b = Inr (units_less ?xs ?ys)"
    using assms by (rule operator_less_units)
  have ba: "operator_less mem b a = Inr (units_less ?ys ?xs)"
    using assms(2,1) by (rule operator_less_units)
  have "units_less ?xs ?ys \<or> strip ?xs = strip ?ys \<or> units_less ?ys ?xs"
    by (rule units_less_linear)
  moreover have "\<not> (units_less ?xs ?ys \<and> units_less ?ys ?xs)"
    using units_less_antisym by blast
  moreover have "strip ?xs = strip ?ys \<Longrightarrow> \<not> units_less ?xs ?ys \<and> \<not> units_less ?ys ?xs"
    using units_less_irrefl [of ?xs ?ys] units_less_irrefl [of ?ys ?xs] by simp
  ultimately show ?thesis unfolding ab ba by auto
qed

text \<open>C3, witness: the non-empty lines \<open>a,\<close> and \<open>ab\<close>.\<close>

theorem C3_forward_trichotomy_witness:
  "valid [0x61, 0x2C, 0x61, 0x62] \<lparr>ptr_m = Some 0, size_m = 2\<rparr> \<and>
   valid [0x61, 0x2C, 0x61, 0x62] \<lparr>ptr_m = Some 2, size_m = 2\<rparr> \<and>
   \<not> (operator_less [0x61, 0x2C, 0x61, 0x62] \<lparr>ptr_m = Some 0, size_m = 2\<rparr>
        \<lparr>ptr_m = Some 2, size_m = 2\<rparr> = Inr True \<and>
      operator_less [0x61, 0x2C, 0x61, 0x62] \<lparr>ptr_m = Some 2, size_m = 2\<rparr>
        \<lparr>ptr_m = Some 0, size_m = 2\<rparr> = Inr True)"
proof -
  have a: "valid [0x61, 0x2C, 0x61, 0x62] \<lparr>ptr_m = Some 0, size_m = 2\<rparr>"
    by (simp add: valid_def)
  have b: "valid [0x61, 0x2C, 0x61, 0x62] \<lparr>ptr_m = Some 2, size_m = 2\<rparr>"
    by (simp add: valid_def)
  show ?thesis using a b C3_forward_trichotomy [OF a b] by blast
qed

text \<open>
  C4. For valid line views \<open>a\<close> and \<open>b\<close>, the backward comparison of \<open>a\<close> and \<open>b\<close> is the
  forward comparison of the reversed lines: of any valid views \<open>a'\<close> and \<open>b'\<close> whose
  contents are the contents of \<open>a\<close> and \<open>b\<close> with the characters in reverse order.
\<close>

theorem C4_backward_is_forward_on_reversed:
  assumes "valid mem a" and "valid mem b"
    and "valid mem' a'" and "valid mem' b'"
    and "content mem' a' = rev (content mem a)"
    and "content mem' b' = rev (content mem b)"
  shows "compareReversed mem a b = operator_less mem' a' b'"
  using assms by (simp add: operator_less_units compareReversed_units)

text \<open>C4, witness: the lines \<open>ab\<close> and \<open>cb\<close>, and their reversals \<open>ba\<close> and \<open>bc\<close>.\<close>

theorem C4_backward_is_forward_on_reversed_witness:
  "compareReversed [0x61, 0x62, 0x63, 0x62] \<lparr>ptr_m = Some 0, size_m = 2\<rparr>
     \<lparr>ptr_m = Some 2, size_m = 2\<rparr> =
   operator_less [0x62, 0x61, 0x62, 0x63] \<lparr>ptr_m = Some 0, size_m = 2\<rparr>
     \<lparr>ptr_m = Some 2, size_m = 2\<rparr>"
  by (rule C4_backward_is_forward_on_reversed) (simp_all add: valid_def content_def)

text \<open>
  C10. The backward comparator is total and stays in bounds for every pair of valid line
  views, zero-length ones included: it returns a boolean, never the value of an
  out-of-bounds access. For a zero-length view the start offset \<open>getSize() - 1\<close> wraps
  around to the largest \<^verbatim>\<open>size_t\<close>, and no access is made through it.
\<close>

theorem C10_compareReversed_total:
  assumes "valid mem a" and "valid mem b"
  shows "(\<exists>r. compareReversed mem a b = Inr r) \<and>
         (size_m a = 0 \<longrightarrow> getSize a - 1 = 0xFFFFFFFFFFFFFFFF)"
  using assms by (simp add: compareReversed_units getSize_def)

text \<open>C10, witness: two zero-length views, in an empty memory.\<close>

theorem C10_compareReversed_total_witness:
  "valid [] IntegratedString_default \<and>
   getSize IntegratedString_default - 1 = 0xFFFFFFFFFFFFFFFF \<and>
   compareReversed [] IntegratedString_default IntegratedString_default = Inr False"
proof -
  have v: "valid [] IntegratedString_default"
    by (simp add: valid_def IntegratedString_default_def)
  have "compareReversed [] IntegratedString_default IntegratedString_default = Inr False"
    by code_simp
  then show ?thesis
    using v C10_compareReversed_total [OF v v]
    by (simp add: IntegratedString_default_def)
qed

section \<open>The table: loading, printing, snapshots\<close>

subsection \<open>Counting and splitting\<close>

lemma utf16_count_loop_terminated:
  assumes "k < length str" and "str ! k = 0" and "\<forall>j. j < k \<longrightarrow> str ! j \<noteq> 0"
  shows "i \<le> k \<Longrightarrow>
         utf16_count_loop str symbol answer i =
           Inr (answer + count_list (drop i (take k str)) symbol)"
proof (induction "k - i" arbitrary: i answer)
  case 0
  then have "i = k" by simp
  then show ?case using assms by (subst utf16_count_loop.simps) simp
next
  case (Suc n)
  then have lt: "i < k" by simp
  then have nz: "str ! i \<noteq> 0" using assms(3) by simp
  have dr: "drop i (take k str) = str ! i # drop (Suc i) (take k str)"
    using lt assms(1) by (simp add: Cons_nth_drop_Suc [symmetric])
  have ih: "utf16_count_loop str symbol a' (Suc i) =
           Inr (a' + count_list (drop (Suc i) (take k str)) symbol)" for a'
    using Suc.hyps(1) [of "Suc i" a'] Suc.hyps(2) lt by simp
  show ?case using lt assms(1) nz
    by (subst utf16_count_loop.simps) (simp add: ih dr)
qed

lemma utf16_count_terminated:
  assumes "0 \<notin> set units"
  shows "utf16_count (units @ 0 # junk) symbol = Inr (count_list units symbol)"
proof -
  have "\<forall>j. j < length units \<longrightarrow> (units @ 0 # junk) ! j \<noteq> 0"
    using assms by (auto simp: nth_append) (metis nth_mem)
  then show ?thesis
    using utf16_count_loop_terminated [of "length units" "units @ 0 # junk" 0 symbol 0]
    by (simp add: utf16_count_def)
qed

lemma length_line_spans: "length (line_spans i b cl xs) = count_list xs 0x0A + 1"
  by (induction xs arbitrary: i b cl) auto

lemma separate_loop_spans:
  shows "nSymbols \<le> length buffer \<Longrightarrow> i \<le> nSymbols \<Longrightarrow>
         currLine + length (line_spans i currBeginning currLength (drop i (take nSymbols buffer)))
           \<le> length strings \<Longrightarrow>
         (case separateBufferIntoLines_loop nSymbols i currLength currLine currBeginning
                 strings buffer of
            Inl e \<Rightarrow> Inl e
          | Inr (currLength', currLine', currBeginning', strings', buffer') \<Rightarrow>
              if currLine' < length strings'
              then Inr (strings'[currLine' :=
                          \<lparr>ptr_m = Some currBeginning', size_m = word_of_nat currLength'\<rparr>],
                        buffer')
              else Inl OutOfBounds)
         = Inr (take currLine strings
                  @ map span_view
                      (line_spans i currBeginning currLength (drop i (take nSymbols buffer)))
                  @ drop (currLine + length (line_spans i currBeginning currLength
                                               (drop i (take nSymbols buffer)))) strings,
                take i buffer @ terminate_lines (drop i (take nSymbols buffer))
                  @ drop nSymbols buffer)"
proof (induction "nSymbols - i" arbitrary: i currLength currLine currBeginning strings buffer)
  case 0
  then have i: "i = nSymbols" by simp
  have k: "currLine < length strings" using "0.prems" i by simp
  show ?case using i k
    by (subst separateBufferIntoLines_loop.simps)
       (simp add: terminate_lines_def span_view_def upd_conv_take_nth_drop)
next
  case (Suc n)
  then have lt: "i < nSymbols" by simp
  then have il: "i < length buffer" using Suc.prems(1) by simp
  have dr: "drop i (take nSymbols buffer) = buffer ! i # drop (Suc i) (take nSymbols buffer)"
    using lt il by (simp add: Cons_nth_drop_Suc [symmetric])
  show ?case
  proof (cases "buffer ! i = 0x0A")
    case False
    have m: "n = nSymbols - Suc i" using Suc.hyps(2) by simp
    have le: "Suc i \<le> nSymbols" using lt by simp
    have b: "currLine + length (line_spans (Suc i) currBeginning (Suc currLength)
                (drop (Suc i) (take nSymbols buffer))) \<le> length strings"
      using Suc.prems(3) dr False by simp
    have tk: "take (Suc i) buffer = take i buffer @ [buffer ! i]"
      using il by (simp add: take_Suc_conv_app_nth)
    show ?thesis
      using Suc.hyps(1) [OF m Suc.prems(1) le b] lt il False
      by (subst separateBufferIntoLines_loop.simps)
         (simp add: dr tk terminate_lines_def)
  next
    case True
    let ?strings = "strings[currLine :=
                      \<lparr>ptr_m = Some currBeginning, size_m = word_of_nat currLength\<rparr>]"
    let ?buffer = "buffer[i := 0]"
    have m: "n = nSymbols - Suc i" using Suc.hyps(2) by simp
    have le: "Suc i \<le> nSymbols" using lt by simp
    have nb: "nSymbols \<le> length ?buffer" using Suc.prems(1) by simp
    have rest: "drop (Suc i) (take nSymbols ?buffer) = drop (Suc i) (take nSymbols buffer)"
      by (simp add: drop_take)
    have k: "currLine < length strings" using Suc.prems(3) dr True by simp
    have b: "Suc currLine + length (line_spans (Suc i) (Suc i) 0
                (drop (Suc i) (take nSymbols ?buffer))) \<le> length ?strings"
      using Suc.prems(3) dr True rest by simp
    have tk: "take (Suc i) ?buffer = take i buffer @ [0]"
      using il by (simp add: take_Suc_conv_app_nth)
    have ts: "take (Suc currLine) ?strings =
              take currLine strings @ [span_view (currBeginning, currLength)]"
      using k by (simp add: take_Suc_conv_app_nth span_view_def)
    show ?thesis
      using Suc.hyps(1) [OF m nb le b] lt il True k
      by (subst separateBufferIntoLines_loop.simps)
         (simp add: dr rest tk ts terminate_lines_def)
  qed
qed

lemma split_lines_not_Nil: "split_lines xs \<noteq> []"
  by (induction xs) (auto split: list.splits)

lemma length_split_lines: "length (split_lines xs) = count_list xs 0x0A + 1"
  by (induction xs) (auto split: list.splits simp: split_lines_not_Nil)

lemma unat_of_nat_small: "n < 2 ^ 64 \<Longrightarrow> unat (word_of_nat n :: size_t) = n"
  by (simp add: unat_of_nat)

lemma content_span_view:
  "cl < 2 ^ 64 \<Longrightarrow> content buf (span_view (b, cl)) = take cl (drop b buf)"
  by (simp add: content_def span_view_def unat_of_nat_small)

lemma line_spans_bounds:
  "(p, l) \<in> set (line_spans i b cl rest) \<Longrightarrow> b + cl = i \<Longrightarrow> p + l \<le> i + length rest"
proof (induction rest arbitrary: i b cl)
  case Nil
  then show ?case by simp
next
  case (Cons x xs)
  show ?case
  proof (cases "x = 0x0A")
    case True
    then have "(p, l) = (b, cl) \<or> (p, l) \<in> set (line_spans (i + 1) (i + 1) 0 xs)"
      using Cons.prems(1) by simp
    then show ?thesis
    proof
      assume "(p, l) = (b, cl)" then show ?thesis using Cons.prems(2) by simp
    next
      assume "(p, l) \<in> set (line_spans (i + 1) (i + 1) 0 xs)"
      then have "p + l \<le> (i + 1) + length xs" by (rule Cons.IH) simp
      then show ?thesis by simp
    qed
  next
    case False
    then have "(p, l) \<in> set (line_spans (i + 1) b (cl + 1) xs)" using Cons.prems(1) by simp
    moreover have "b + (cl + 1) = i + 1" using Cons.prems(2) by simp
    ultimately have "p + l \<le> (i + 1) + length xs" by (rule Cons.IH)
    then show ?thesis by simp
  qed
qed

lemma valid_span_view:
  assumes "(p, l) \<in> set (line_spans i b cl rest)" and "b + cl = i"
    and "i + length rest \<le> length buf" and "i + length rest < 2 ^ 64"
  shows "valid buf (span_view (p, l))"
proof -
  have "p + l \<le> i + length rest" using assms(1,2) by (rule line_spans_bounds)
  then show ?thesis using assms(3,4)
    by (simp add: valid_def span_view_def unat_of_nat_small)
qed

lemma line_spans_content:
  "\<forall>j < length rest. rest ! j \<noteq> 0x0A \<longrightarrow> buf ! (i + j) = rest ! j \<Longrightarrow>
   i + length rest \<le> length buf \<Longrightarrow> b + cl = i \<Longrightarrow> i + length rest < 2 ^ 64 \<Longrightarrow>
   map (content buf) (map span_view (line_spans i b cl rest)) =
     (case split_lines rest of [] \<Rightarrow> [] | l # ls \<Rightarrow> (take cl (drop b buf) @ l) # ls)"
proof (induction rest arbitrary: i b cl)
  case Nil
  then show ?case by (simp add: content_span_view)
next
  case (Cons x xs)
  have nxt: "\<forall>j < length xs. xs ! j \<noteq> 0x0A \<longrightarrow> buf ! (i + 1 + j) = xs ! j"
  proof (intro allI impI)
    fix j assume "j < length xs" "xs ! j \<noteq> 0x0A"
    then show "buf ! (i + 1 + j) = xs ! j" using Cons.prems(1) [rule_format, of "Suc j"] by simp
  qed
  have len: "i + 1 + length xs \<le> length buf" using Cons.prems(2) by simp
  have small: "i + 1 + length xs < 2 ^ 64" using Cons.prems(4) by simp
  have cls: "cl < 2 ^ 64" using Cons.prems(3,4) by simp
  show ?case
  proof (cases "x = 0x0A")
    case True
    have "map (content buf) (map span_view (line_spans (i + 1) (i + 1) 0 xs)) =
            (case split_lines xs of [] \<Rightarrow> [] | l # ls \<Rightarrow> (take 0 (drop (i + 1) buf) @ l) # ls)"
      using nxt len small by (intro Cons.IH) simp_all
    also have "\<dots> = split_lines xs" by (simp split: list.splits)
    finally show ?thesis using True cls by (simp add: content_span_view)
  next
    case False
    have x: "buf ! i = x" using Cons.prems(1) [rule_format, of 0] False by simp
    have "take (cl + 1) (drop b buf) = take cl (drop b buf) @ [x]"
      using Cons.prems(2,3) x by (simp add: take_Suc_conv_app_nth)
    moreover have "map (content buf) (map span_view (line_spans (i + 1) b (cl + 1) xs)) =
            (case split_lines xs of [] \<Rightarrow> []
             | l # ls \<Rightarrow> (take (cl + 1) (drop b buf) @ l) # ls)"
      using nxt len small Cons.prems(3) by (intro Cons.IH) simp_all
    ultimately show ?thesis using False
      by (simp split: list.splits add: split_lines_not_Nil)
  qed
qed

lemma separateBufferIntoLines_nonempty:
  assumes buf: "buffer_m t = (u # us) @ 0 # junk"
    and n: "nSymbols_m t = length (u # us)"
    and nz: "0 \<notin> set (u # us)"
    and first: "u \<noteq> 0x0A"
  shows "separateBufferIntoLines t =
           Inr (t\<lparr>buffer_m := u # terminate_lines us @ 0 # junk,
                  nLines_m := count_list us 0x0A + 1,
                  strings_m := map span_view (line_spans 1 1 0 us)\<rparr>)"
proof -
  let ?strings = "replicate (count_list us 0x0A + 1) IntegratedString_default"
  have cnt: "utf16_count (buffer_m t) 0x0A = Inr (count_list us 0x0A)"
    using utf16_count_terminated [OF nz, of junk "0x0A"] first buf by simp
  have rest: "drop 1 (take (nSymbols_m t) (buffer_m t)) = us"
    using buf n by simp
  have "(case separateBufferIntoLines_loop (nSymbols_m t) 1 0 0 1 ?strings (buffer_m t) of
            Inl e \<Rightarrow> Inl e
          | Inr (currLength', currLine', currBeginning', strings', buffer') \<Rightarrow>
              if currLine' < length strings'
              then Inr (strings'[currLine' :=
                          \<lparr>ptr_m = Some currBeginning', size_m = word_of_nat currLength'\<rparr>],
                        buffer')
              else Inl OutOfBounds)
         = Inr (take 0 ?strings
                  @ map span_view
                      (line_spans 1 1 0 (drop 1 (take (nSymbols_m t) (buffer_m t))))
                  @ drop (0 + length (line_spans 1 1 0
                                        (drop 1 (take (nSymbols_m t) (buffer_m t))))) ?strings,
                take 1 (buffer_m t) @ terminate_lines (drop 1 (take (nSymbols_m t) (buffer_m t)))
                  @ drop (nSymbols_m t) (buffer_m t))"
    by (rule separate_loop_spans) (simp_all add: rest length_line_spans, simp_all add: buf n)
  then have "(case separateBufferIntoLines_loop (nSymbols_m t) 1 0 0 1 ?strings (buffer_m t) of
            Inl e \<Rightarrow> Inl e
          | Inr (currLength', currLine', currBeginning', strings', buffer') \<Rightarrow>
              if currLine' < length strings'
              then Inr (strings'[currLine' :=
                          \<lparr>ptr_m = Some currBeginning', size_m = word_of_nat currLength'\<rparr>],
                        buffer')
              else Inl OutOfBounds)
         = Inr (map span_view (line_spans 1 1 0 us), u # terminate_lines us @ 0 # junk)"
    unfolding rest by (simp add: length_line_spans buf n)
  then show ?thesis
    by (auto simp: separateBufferIntoLines_def cnt Let_def split: sum.splits prod.splits if_splits)
qed

lemma separateBufferIntoLines_empty:
  assumes buf: "buffer_m t = 0 # junk" and n: "nSymbols_m t = 0"
  shows "separateBufferIntoLines t =
           Inr (t\<lparr>buffer_m := 0 # junk, nLines_m := 1, strings_m := [span_view (1, 0)]\<rparr>)"
proof -
  have "utf16_count (buffer_m t) 0x0A = Inr 0"
    using utf16_count_terminated [of "[]" junk "0x0A"] buf by simp
  then show ?thesis using buf n
    by (simp add: separateBufferIntoLines_def Let_def separateBufferIntoLines_loop.simps
                  span_view_def)
qed

lemma nth_terminate_lines:
  "j < length xs \<Longrightarrow> xs ! j \<noteq> 0x0A \<Longrightarrow> terminate_lines xs ! j = xs ! j"
  by (simp add: terminate_lines_def)

subsection \<open>Trimming the empty lines at the end\<close>

lemma last_index_wrap:
  assumes "0 < n" and "n \<le> 2 ^ 64"
  shows "(n + 2 ^ 64 - 1) mod 2 ^ 64 = (n - 1 :: nat)"
proof -
  obtain k where k: "n = Suc k" using assms(1) by (cases n) auto
  then have "k < 2 ^ 64" using assms(2) by simp
  moreover have "n + 2 ^ 64 - 1 = k + 2 ^ 64" unfolding k by (simp only: add_Suc diff_Suc_1)
  ultimately show ?thesis unfolding k by (simp only: mod_add_self2 mod_less diff_Suc_1)
qed

lemma shrinkEmptyLines_step:
  assumes "0 < nLines_m t" and "nLines_m t \<le> length (strings_m t)"
    and "length (strings_m t) < 2 ^ 64"
  shows "shrinkEmptyLines t =
           (if size_m (strings_m t ! (nLines_m t - 1)) = 0
            then shrinkEmptyLines (t\<lparr>nLines_m := nLines_m t - 1\<rparr>) else Inr t)"
proof -
  have idx: "(nLines_m t + 2 ^ 64 - 1) mod 2 ^ 64 = nLines_m t - 1"
    using assms by (intro last_index_wrap) simp_all
  have lt: "(nLines_m t - 1 < length (strings_m t)) = True" using assms(1,2) by simp
  have pos: "(0 < nLines_m t) = True" using assms(1) by simp
  show ?thesis
    by (subst shrinkEmptyLines.simps)
       (simp only: Let_def idx lt pos if_True getSize_def simp_thms)
qed

lemma shrinkEmptyLines_zero:
  assumes "nLines_m t = 0" and "length (strings_m t) < 2 ^ 64"
  shows "shrinkEmptyLines t = Inl OutOfBounds"
proof -
  have "(nLines_m t + 2 ^ 64 - 1) mod 2 ^ 64 = (2 ^ 64 - 1 :: nat)"
    unfolding assms(1) by simp
  moreover have "\<not> (2 ^ 64 - 1 :: nat) < length (strings_m t)" using assms(2) by simp
  ultimately show ?thesis
    by (subst shrinkEmptyLines.simps) (simp only: Let_def if_False)
qed

lemma shrinkEmptyLines_all_empty:
  "nLines_m t \<le> length (strings_m t) \<Longrightarrow> length (strings_m t) < 2 ^ 64 \<Longrightarrow>
   \<forall>j < nLines_m t. size_m (strings_m t ! j) = 0 \<Longrightarrow>
   shrinkEmptyLines t = Inl OutOfBounds"
proof (induction "nLines_m t" arbitrary: t)
  case 0
  then show ?case by (intro shrinkEmptyLines_zero) simp_all
next
  case (Suc n)
  let ?t = "t\<lparr>nLines_m := nLines_m t - 1\<rparr>"
  have pos: "0 < nLines_m t" using Suc.hyps(2) by simp
  have e: "size_m (strings_m t ! (nLines_m t - 1)) = 0" using Suc.prems(3) pos by simp
  have "shrinkEmptyLines ?t = Inl OutOfBounds"
    using Suc.hyps(2) Suc.prems by (intro Suc.hyps(1)) auto
  then show ?case using e shrinkEmptyLines_step [OF pos Suc.prems(1,2)] by simp
qed

lemma shrinkEmptyLines_trims:
  "0 < m \<Longrightarrow> m \<le> nLines_m t \<Longrightarrow> nLines_m t \<le> length (strings_m t) \<Longrightarrow>
   length (strings_m t) < 2 ^ 64 \<Longrightarrow>
   size_m (strings_m t ! (m - 1)) \<noteq> 0 \<Longrightarrow>
   \<forall>j. m \<le> j \<and> j < nLines_m t \<longrightarrow> size_m (strings_m t ! j) = 0 \<Longrightarrow>
   shrinkEmptyLines t = Inr (t\<lparr>nLines_m := m\<rparr>)"
proof (induction "nLines_m t - m" arbitrary: t)
  case 0
  then have eq: "nLines_m t = m" by simp
  have pos: "0 < nLines_m t" using "0.prems" by simp
  show ?case using shrinkEmptyLines_step [OF pos "0.prems"(3,4)] "0.prems"(5) eq by simp
next
  case (Suc n)
  let ?t = "t\<lparr>nLines_m := nLines_m t - 1\<rparr>"
  have lt: "m < nLines_m t" using Suc.hyps(2) by simp
  then have pos: "0 < nLines_m t" by simp
  have e: "size_m (strings_m t ! (nLines_m t - 1)) = 0" using Suc.prems(6) lt by simp
  have "shrinkEmptyLines ?t = Inr (?t\<lparr>nLines_m := m\<rparr>)"
    using Suc.hyps(2) Suc.prems lt by (intro Suc.hyps(1)) auto
  then show ?case using e shrinkEmptyLines_step [OF pos Suc.prems(3,4)] by simp
qed

lemma load_one_trailing_separator:
  "loadFromFile (Some [0xFEFF, 0x61, 0x0A]) (0, 0)
   = Inr \<lparr>buffer_m = [0xFEFF, 0x61, 0, 0, 0], nSymbols_m = 3, nLines_m = 1,
          strings_m = [\<lparr>ptr_m = Some 1, size_m = 1\<rparr>, \<lparr>ptr_m = Some 3, size_m = 0\<rparr>],
          original_m = [\<lparr>ptr_m = Some 1, size_m = 1\<rparr>]\<rparr>"
proof -
  have sep: "separateBufferIntoLines
          \<lparr>buffer_m = [0xFEFF, 0x61, 0x0A] @ [fst (0, 0), snd (0, 0)],
           nSymbols_m = length [0xFEFF, 0x61, 0x0A], nLines_m = 0,
           strings_m = [], original_m = []\<rparr>
        = Inr \<lparr>buffer_m = [0xFEFF, 0x61, 0, 0, 0], nSymbols_m = 3, nLines_m = 2,
               strings_m = [\<lparr>ptr_m = Some 1, size_m = 1\<rparr>, \<lparr>ptr_m = Some 3, size_m = 0\<rparr>],
               original_m = []\<rparr>"
    by code_simp
  show ?thesis unfolding loadFromFile_def option.case sep
    by (simp add: shrinkEmptyLines.simps getSize_def setOriginal_def)
qed

lemma load_two_trailing_separators:
  "loadFromFile (Some [0xFEFF, 0x61, 0x0A, 0x0A]) (0, 0)
   = Inr \<lparr>buffer_m = [0xFEFF, 0x61, 0, 0, 0, 0], nSymbols_m = 4, nLines_m = 1,
          strings_m = [\<lparr>ptr_m = Some 1, size_m = 1\<rparr>, \<lparr>ptr_m = Some 3, size_m = 0\<rparr>,
                       \<lparr>ptr_m = Some 4, size_m = 0\<rparr>],
          original_m = [\<lparr>ptr_m = Some 1, size_m = 1\<rparr>]\<rparr>"
proof -
  have sep: "separateBufferIntoLines
          \<lparr>buffer_m = [0xFEFF, 0x61, 0x0A, 0x0A] @ [fst (0, 0), snd (0, 0)],
           nSymbols_m = length [0xFEFF, 0x61, 0x0A, 0x0A], nLines_m = 0,
           strings_m = [], original_m = []\<rparr>
        = Inr \<lparr>buffer_m = [0xFEFF, 0x61, 0, 0, 0, 0], nSymbols_m = 4, nLines_m = 3,
               strings_m = [\<lparr>ptr_m = Some 1, size_m = 1\<rparr>, \<lparr>ptr_m = Some 3, size_m = 0\<rparr>,
                            \<lparr>ptr_m = Some 4, size_m = 0\<rparr>],
               original_m = []\<rparr>"
    by code_simp
  show ?thesis unfolding loadFromFile_def option.case sep
    by (simp add: shrinkEmptyLines.simps getSize_def setOriginal_def)
qed

subsection \<open>What a load establishes\<close>

lemma separate_loop_length:
  "separateBufferIntoLines_loop nSymbols i currLength currLine currBeginning strings buffer
     = Inr (currLength', currLine', currBeginning', strings', buffer') \<Longrightarrow>
   length strings' = length strings"
proof (induction nSymbols i currLength currLine currBeginning strings buffer
         rule: separateBufferIntoLines_loop.induct)
  case (1 nSymbols i currLength currLine currBeginning strings buffer)
  from "1.prems" show ?case
    by (subst (asm) separateBufferIntoLines_loop.simps)
       (auto split: if_splits dest: "1.IH")
qed

lemma separateBufferIntoLines_length:
  "separateBufferIntoLines t = Inr t' \<Longrightarrow> length (strings_m t') = nLines_m t'"
  by (auto simp: separateBufferIntoLines_def Let_def
           split: sum.splits prod.splits if_splits dest: separate_loop_length)

lemma shrinkEmptyLines_keeps:
  "shrinkEmptyLines t = Inr t' \<Longrightarrow>
   strings_m t' = strings_m t \<and> nLines_m t' \<le> nLines_m t"
proof (induction "nLines_m t" arbitrary: t rule: less_induct)
  case less
  from less.prems consider "t' = t"
    | "0 < nLines_m t" and "shrinkEmptyLines (t\<lparr>nLines_m := nLines_m t - 1\<rparr>) = Inr t'"
    by (subst (asm) shrinkEmptyLines.simps) (auto simp: Let_def split: if_splits)
  then show ?case
  proof cases
    case 1
    then show ?thesis by simp
  next
    case 2
    have "strings_m t' = strings_m (t\<lparr>nLines_m := nLines_m t - 1\<rparr>) \<and>
          nLines_m t' \<le> nLines_m (t\<lparr>nLines_m := nLines_m t - 1\<rparr>)"
      using 2 by (intro less.hyps) simp_all
    then show ?thesis by auto
  qed
qed

lemma loadFromFile_line_count:
  assumes "loadFromFile file tail = Inr t"
  shows "nLines_m t \<le> length (strings_m t) \<and>
         original_m t = take (nLines_m t) (strings_m t)"
proof -
  from assms obtain units t1 t2 where
    "separateBufferIntoLines
       \<lparr>buffer_m = units @ [fst tail, snd tail], nSymbols_m = length units,
        nLines_m = 0, strings_m = [], original_m = []\<rparr> = Inr t1"
    "shrinkEmptyLines t1 = Inr t2" "setOriginal t2 = Inr t"
    by (auto simp: loadFromFile_def split: option.splits sum.splits)
  then show ?thesis
    using separateBufferIntoLines_length [of _ t1] shrinkEmptyLines_keeps [of t1 t2]
    by (auto simp: setOriginal_def split: if_splits)
qed

subsection \<open>Printing\<close>

lemma UTF16_NEWLINE_value: "UTF16_NEWLINE = 0x000A"
  by (simp add: UTF16_NEWLINE_def)

lemma fwrite_units_content:
  "valid mem s \<Longrightarrow> fwrite_units mem (getPtr s) (getSize s) = Inr (content mem s)"
  by (auto simp: valid_def fwrite_units_def content_def getPtr_def getSize_def
           split: option.splits)

lemma printToFile_loop_units:
  assumes len: "nLines_m t \<le> length (strings_m t)"
    and val: "\<forall>s \<in> set (take (nLines_m t) (strings_m t)). valid (buffer_m t) s"
  shows "i \<le> nLines_m t \<Longrightarrow>
         printToFile_loop t i out =
           Inr (out @ concat (map (\<lambda>s. content (buffer_m t) s @ [UTF16_NEWLINE])
                                (drop i (take (nLines_m t) (strings_m t)))))"
proof (induction "nLines_m t - i" arbitrary: i out)
  case 0
  then have "i = nLines_m t" by simp
  then show ?case using len by (subst printToFile_loop.simps) simp
next
  case (Suc n)
  then have lt: "i < nLines_m t" by simp
  then have il: "i < length (strings_m t)" using len by simp
  have mem: "strings_m t ! i \<in> set (take (nLines_m t) (strings_m t))"
    using lt il by (metis in_set_conv_nth length_take min.absorb2 len nth_take)
  then have v: "valid (buffer_m t) (strings_m t ! i)" using val by blast
  have dr: "drop i (take (nLines_m t) (strings_m t)) =
            strings_m t ! i # drop (Suc i) (take (nLines_m t) (strings_m t))"
    using lt il len by (simp add: Cons_nth_drop_Suc [symmetric])
  have ih: "printToFile_loop t (Suc i) out' =
           Inr (out' @ concat (map (\<lambda>s. content (buffer_m t) s @ [UTF16_NEWLINE])
                                (drop (Suc i) (take (nLines_m t) (strings_m t)))))" for out'
    using Suc.hyps(1) [of "Suc i" out'] Suc.hyps(2) lt by simp
  show ?case
    using lt il by (subst printToFile_loop.simps) (simp add: fwrite_units_content [OF v] ih dr)
qed

section \<open>Claims about the table\<close>

text \<open>
  C5. The code does what the claim says for a text with a line that is not empty, and
  breaks it for a text whose lines are all empty: the file of the two units \<open>0xFEFF\<close>, \<open>0x000A\<close>
  (the marker and one separator) is split into two empty lines; after both are trimmed
  \<^verbatim>\<open>nLines_\<close> is 0, and the loop condition reads \<^verbatim>\<open>strings_[nLines_ - 1]\<close>, with the index
  wrapped around to \<open>2 ^ 64 - 1\<close>, before it tests \<^verbatim>\<open>nLines_ > 0\<close>: the load ends in an
  out-of-bounds read and not in a line count.
\<close>

theorem C5_all_lines_empty_out_of_bounds:
  "loadFromFile (Some [0xFEFF, 0x0A]) (0, 0) = Inl OutOfBounds"
proof -
  have sep: "separateBufferIntoLines
          \<lparr>buffer_m = [0xFEFF, 0x0A] @ [fst (0, 0), snd (0, 0)],
           nSymbols_m = length [0xFEFF, 0x0A], nLines_m = 0,
           strings_m = [], original_m = []\<rparr>
        = Inr \<lparr>buffer_m = [0xFEFF, 0, 0, 0], nSymbols_m = 2, nLines_m = 2,
               strings_m = [\<lparr>ptr_m = Some 1, size_m = 0\<rparr>, \<lparr>ptr_m = Some 2, size_m = 0\<rparr>],
               original_m = []\<rparr>"
    by code_simp
  show ?thesis unfolding loadFromFile_def option.case sep
    by (simp add: shrinkEmptyLines.simps getSize_def)
qed

text \<open>
  C6, as stated, fails. The claim: the separator written after each line is a reserved
  value different from the plain newline \<open>0x000A\<close>. The conversion of \<open>0xfeff000a\<close> to
  \<^verbatim>\<open>char16_t\<close> keeps the low 16 bits: the separator is \<open>0x000A\<close>, and printing the
  one-line text \<open>a\<close> writes the marker, \<open>a\<close> and \<open>0x000A\<close>.
\<close>

theorem C6_separator_is_newline_counterexample:
  "UTF16_NEWLINE = 0x000A \<and>
   printToFile \<lparr>buffer_m = [0xFEFF, 0x61, 0, 0], nSymbols_m = 2, nLines_m = 1,
                 strings_m = [\<lparr>ptr_m = Some 1, size_m = 1\<rparr>],
                 original_m = [\<lparr>ptr_m = Some 1, size_m = 1\<rparr>]\<rparr> (Some [])
     = Inr [0xFEFF, 0x61, 0x000A]"
proof -
  have "printToFile \<lparr>buffer_m = [0xFEFF, 0x61, 0, 0], nSymbols_m = 2, nLines_m = 1,
                 strings_m = [\<lparr>ptr_m = Some 1, size_m = 1\<rparr>],
                 original_m = [\<lparr>ptr_m = Some 1, size_m = 1\<rparr>]\<rparr> (Some [])
     = Inr [0xFEFF, 0x61, 0x000A]"
    by code_simp
  then show ?thesis by (simp add: UTF16_NEWLINE_def)
qed

text \<open>
  C6, amended. Each rendering pass appends to the output exactly one leading marker code
  unit (the first unit of the buffer), then, for each of the first \<^verbatim>\<open>nLines_\<close> views in
  order, the content of the view followed by exactly one separator code unit; the
  separator is \<open>UTF16_NEWLINE\<close>, whose value is the plain newline \<open>0x000A\<close>.
\<close>

theorem C6_printToFile_framing:
  assumes "buffer_m t \<noteq> []"
    and "nLines_m t \<le> length (strings_m t)"
    and "\<forall>s \<in> set (take (nLines_m t) (strings_m t)). valid (buffer_m t) s"
  shows "printToFile t (Some written) =
           Inr (written @ [buffer_m t ! 0] @
                concat (map (\<lambda>s. content (buffer_m t) s @ [UTF16_NEWLINE])
                          (take (nLines_m t) (strings_m t)))) \<and>
         UTF16_NEWLINE = 0x000A"
proof -
  have "fwrite_units (buffer_m t) (Some 0) 1 = Inr [buffer_m t ! 0]"
    using assms(1) by (cases "buffer_m t") (simp_all add: fwrite_units_def)
  then show ?thesis
    using printToFile_loop_units [OF assms(2,3), of 0]
    by (simp add: printToFile_def UTF16_NEWLINE_value)
qed

text \<open>
  C6, witness: a text of the two lines \<open>a\<close> and \<open>b\<close>.
\<close>

theorem C6_printToFile_framing_witness:
  "printToFile \<lparr>buffer_m = [0xFEFF, 0x61, 0, 0x62, 0, 0], nSymbols_m = 4, nLines_m = 2,
                 strings_m = [\<lparr>ptr_m = Some 1, size_m = 1\<rparr>, \<lparr>ptr_m = Some 3, size_m = 1\<rparr>],
                 original_m = []\<rparr> (Some [])
     = Inr [0xFEFF, 0x61, 0x000A, 0x62, 0x000A]"
  using C6_printToFile_framing [of
    "\<lparr>buffer_m = [0xFEFF, 0x61, 0, 0x62, 0, 0], nSymbols_m = 4, nLines_m = 2,
      strings_m = [\<lparr>ptr_m = Some 1, size_m = 1\<rparr>, \<lparr>ptr_m = Some 3, size_m = 1\<rparr>],
      original_m = []\<rparr>" "[]"]
  by (simp add: valid_def content_def)

text \<open>
  C7. For a table whose line count does not exceed its array of views (as after every
  load, lemma \<open>loadFromFile_line_count\<close>), taking a snapshot
  of the current order, then reordering with any comparator (by any \<open>std_sort\<close> that
  permutes the range it is given), then restoring the snapshot gives back the table at
  the time of the snapshot: the same views at the same positions. The snapshot is a
  value of its own, which the reordering of the table does not change.
\<close>

theorem C7_snapshot_reorder_restore:
  assumes "nLines_m t \<le> length (strings_m t)"
    and "mset (std_sort cmp (take (nLines_m t) (strings_m t))) =
         mset (take (nLines_m t) (strings_m t))"
  shows "(case getOrder t of
            Inl e \<Rightarrow> Inl e
          | Inr snapshot \<Rightarrow>
              (case sort_Text std_sort cmp t of
                 Inl e \<Rightarrow> Inl e
               | Inr reordered \<Rightarrow> setOrder snapshot reordered)) = Inr t"
proof -
  have "length (std_sort cmp (take (nLines_m t) (strings_m t))) =
        length (take (nLines_m t) (strings_m t))"
    using assms(2) by (rule mset_eq_length)
  then have "length (std_sort cmp (take (nLines_m t) (strings_m t))) = nLines_m t"
    using assms(1) by simp
  then show ?thesis using assms(1)
    by (simp add: getOrder_def sort_Text_def setOrder_def)
qed

text \<open>
  C7, witness: two lines, reordered by length with a stable sort by the key.
\<close>

theorem C7_snapshot_reorder_restore_witness:
  "(case getOrder
           \<lparr>buffer_m = [0xFEFF, 0x62, 0x62, 0, 0x61, 0, 0], nSymbols_m = 5, nLines_m = 2,
            strings_m = [\<lparr>ptr_m = Some 1, size_m = 2\<rparr>, \<lparr>ptr_m = Some 4, size_m = 1\<rparr>],
            original_m = []\<rparr> of
      Inl e \<Rightarrow> Inl e
    | Inr snapshot \<Rightarrow>
        (case sort_Text (\<lambda>cmp. sort_key (\<lambda>s. unat (size_m s))) (\<lambda>a b. size_m a < size_m b)
                \<lparr>buffer_m = [0xFEFF, 0x62, 0x62, 0, 0x61, 0, 0], nSymbols_m = 5, nLines_m = 2,
                 strings_m = [\<lparr>ptr_m = Some 1, size_m = 2\<rparr>, \<lparr>ptr_m = Some 4, size_m = 1\<rparr>],
                 original_m = []\<rparr> of
           Inl e \<Rightarrow> Inl e
         | Inr reordered \<Rightarrow> setOrder snapshot reordered))
   = Inr \<lparr>buffer_m = [0xFEFF, 0x62, 0x62, 0, 0x61, 0, 0], nSymbols_m = 5, nLines_m = 2,
          strings_m = [\<lparr>ptr_m = Some 1, size_m = 2\<rparr>, \<lparr>ptr_m = Some 4, size_m = 1\<rparr>],
          original_m = []\<rparr>"
  by (rule C7_snapshot_reorder_restore) simp_all

text \<open>
  C8, as stated, fails. The claim: the lines are the runs between the separators of the
  buffer, the first line spanning from the start of the file. On the file \<open>0xFEFF\<close>,
  \<open>a\<close>, \<open>0x000A\<close>, \<open>b\<close> the split gives the lines \<open>a\<close> and \<open>b\<close>, while the runs
  between the separators of the file are \<open>0xFEFF a\<close> and \<open>b\<close>: the first unit of the
  buffer, the marker that \<open>printToFile\<close> writes on its own, belongs to no line.
\<close>

theorem C8_first_line_skips_first_unit_counterexample:
  "separateBufferIntoLines
     \<lparr>buffer_m = [0xFEFF, 0x61, 0x0A, 0x62, 0, 0], nSymbols_m = 4, nLines_m = 0,
      strings_m = [], original_m = []\<rparr>
   = Inr \<lparr>buffer_m = [0xFEFF, 0x61, 0, 0x62, 0, 0], nSymbols_m = 4, nLines_m = 2,
          strings_m = [\<lparr>ptr_m = Some 1, size_m = 1\<rparr>, \<lparr>ptr_m = Some 3, size_m = 1\<rparr>],
          original_m = []\<rparr> \<and>
   map (content [0xFEFF, 0x61, 0, 0x62, 0, 0])
     [\<lparr>ptr_m = Some 1, size_m = 1\<rparr>, \<lparr>ptr_m = Some 3, size_m = 1\<rparr>] = [[0x61], [0x62]] \<and>
   split_lines [0xFEFF, 0x61, 0x0A, 0x62] = [[0xFEFF, 0x61], [0x62]]"
proof -
  have "separateBufferIntoLines
     \<lparr>buffer_m = [0xFEFF, 0x61, 0x0A, 0x62, 0, 0], nSymbols_m = 4, nLines_m = 0,
      strings_m = [], original_m = []\<rparr>
   = Inr \<lparr>buffer_m = [0xFEFF, 0x61, 0, 0x62, 0, 0], nSymbols_m = 4, nLines_m = 2,
          strings_m = [\<lparr>ptr_m = Some 1, size_m = 1\<rparr>, \<lparr>ptr_m = Some 3, size_m = 1\<rparr>],
          original_m = []\<rparr>"
    by code_simp
  then show ?thesis by (simp add: content_def)
qed

text \<open>
  C8, amended. For every buffer whose units contain no NUL, are followed by a NUL unit
  in the allocation and do not start with a separator (and are fewer than \<open>2 ^ 64\<close>),
  the split succeeds and its lines are exactly the runs of code units between consecutive
  separators of the buffer without its first unit: the first line spans from the unit
  of index 1 to the first separator, the last line from the last separator to the end of
  the file. Every view is valid in the buffer the split leaves.
\<close>

theorem C8_split_between_separators:
  assumes "buffer_m t = units @ 0 # junk"
    and "nSymbols_m t = length units"
    and "0 \<notin> set units"
    and "units = [] \<or> hd units \<noteq> 0x0A"
    and "length units < 2 ^ 64"
  shows "\<exists>t'. separateBufferIntoLines t = Inr t' \<and>
              nLines_m t' = length (split_lines (tl units)) \<and>
              map (content (buffer_m t')) (strings_m t') = split_lines (tl units) \<and>
              (\<forall>s \<in> set (strings_m t'). valid (buffer_m t') s) \<and>
              ptr_m (hd (strings_m t')) = Some 1"
proof (cases units)
  case Nil
  have "separateBufferIntoLines t =
           Inr (t\<lparr>buffer_m := 0 # junk, nLines_m := 1, strings_m := [span_view (1, 0)]\<rparr>)"
    using assms(1,2) Nil by (intro separateBufferIntoLines_empty) simp_all
  moreover have "content (0 # junk) (span_view (1, 0)) = []"
    by (simp add: content_span_view)
  moreover have "valid (0 # junk) (span_view (1, 0))" "ptr_m (span_view (1, 0)) = Some 1"
    by (simp_all add: valid_def span_view_def)
  ultimately show ?thesis using Nil by simp
next
  case (Cons u us)
  let ?buf = "u # terminate_lines us @ 0 # junk"
  let ?sp = "line_spans 1 1 0 us"
  have r: "separateBufferIntoLines t =
           Inr (t\<lparr>buffer_m := ?buf, nLines_m := count_list us 0x0A + 1,
                  strings_m := map span_view ?sp\<rparr>)"
    using assms(1-4) Cons by (intro separateBufferIntoLines_nonempty) simp_all
  have agree: "\<forall>j < length us. us ! j \<noteq> 0x0A \<longrightarrow> ?buf ! (1 + j) = us ! j"
    by (simp add: nth_append nth_terminate_lines terminate_lines_def)
  have len: "1 + length us \<le> length ?buf" by (simp add: terminate_lines_def)
  have small: "1 + length us < 2 ^ 64" using assms(5) Cons by simp
  have "map (content ?buf) (map span_view ?sp) =
          (case split_lines us of [] \<Rightarrow> [] | l # ls \<Rightarrow> (take 0 (drop 1 ?buf) @ l) # ls)"
    using agree len _ small by (rule line_spans_content) simp
  then have c: "map (content ?buf) (map span_view ?sp) = split_lines us"
    by (simp split: list.splits)
  have v: "valid ?buf s" if "s \<in> set (map span_view ?sp)" for s
  proof -
    from that obtain p l where "(p, l) \<in> set ?sp" "s = span_view (p, l)" by auto
    then show ?thesis using valid_span_view [of p l 1 1 0 us ?buf] len small by simp
  qed
  have h: "ptr_m (hd (map span_view ?sp)) = Some 1"
  proof -
    have "fst (hd (line_spans i b cl xs)) = b" for i b cl xs
      by (induction xs arbitrary: i cl) auto
    moreover have "?sp \<noteq> []" using length_line_spans [of 1 1 0 us] by auto
    ultimately show ?thesis by (simp add: hd_map span_view_def)
  qed
  show ?thesis using r c v h Cons by (simp add: length_split_lines)
qed

text \<open>
  C8, witness: the file \<open>0xFEFF\<close>, \<open>a\<close>, \<open>0x000A\<close>, \<open>b\<close>.
\<close>

theorem C8_split_between_separators_witness:
  "\<exists>t'. separateBufferIntoLines
          \<lparr>buffer_m = [0xFEFF, 0x61, 0x0A, 0x62, 0, 0], nSymbols_m = 4, nLines_m = 0,
           strings_m = [], original_m = []\<rparr> = Inr t' \<and>
        map (content (buffer_m t')) (strings_m t') = [[0x61], [0x62]]"
  using C8_split_between_separators [of
      "\<lparr>buffer_m = [0xFEFF, 0x61, 0x0A, 0x62, 0, 0], nSymbols_m = 4, nLines_m = 0,
        strings_m = [], original_m = []\<rparr>" "[0xFEFF, 0x61, 0x0A, 0x62]" "[0]"]
  by auto

text \<open>
  C9, as stated, fails. The claim: a snapshot of the wrong length is rejected and the
  table remains usable, its order unchanged. The check is an \<^verbatim>\<open>assert\<close>: on a snapshot
  of length 0 for a table of one line the call ends the program with the failed
  assertion, and does not return the table.
\<close>

theorem C9_mismatch_aborts_counterexample:
  "setOrder \<lparr>lines_m = []\<rparr>
     \<lparr>buffer_m = [0xFEFF, 0x61, 0, 0], nSymbols_m = 2, nLines_m = 1,
      strings_m = [\<lparr>ptr_m = Some 1, size_m = 1\<rparr>],
      original_m = [\<lparr>ptr_m = Some 1, size_m = 1\<rparr>]\<rparr>
   = Inl AssertionFailed \<and>
   setOrder \<lparr>lines_m = []\<rparr>
     \<lparr>buffer_m = [0xFEFF, 0x61, 0, 0], nSymbols_m = 2, nLines_m = 1,
      strings_m = [\<lparr>ptr_m = Some 1, size_m = 1\<rparr>],
      original_m = [\<lparr>ptr_m = Some 1, size_m = 1\<rparr>]\<rparr>
   \<noteq> Inr \<lparr>buffer_m = [0xFEFF, 0x61, 0, 0], nSymbols_m = 2, nLines_m = 1,
      strings_m = [\<lparr>ptr_m = Some 1, size_m = 1\<rparr>],
      original_m = [\<lparr>ptr_m = Some 1, size_m = 1\<rparr>]\<rparr>"
  by (simp add: setOrder_def)

text \<open>
  C9, amended. Restoring a snapshot whose length differs from the line count of the table
  fails the size assertion before anything is copied: the call aborts and returns no
  table, so it never changes the order. The size mismatch is a programming error, caught
  by an assertion.
\<close>

theorem C9_setOrder_size_mismatch:
  assumes "length (lines_m order) \<noteq> nLines_m t"
  shows "setOrder order t = Inl AssertionFailed \<and> (\<forall>t'. setOrder order t \<noteq> Inr t')"
  using assms by (simp add: setOrder_def)

text \<open>
  C9, witness: the empty snapshot and a table of one line.
\<close>

theorem C9_setOrder_size_mismatch_witness:
  "length (lines_m \<lparr>lines_m = []\<rparr>) \<noteq>
     nLines_m \<lparr>buffer_m = [0xFEFF, 0x61, 0, 0], nSymbols_m = 2, nLines_m = 1,
      strings_m = [\<lparr>ptr_m = Some 1, size_m = 1\<rparr>], original_m = []\<rparr> \<and>
   setOrder \<lparr>lines_m = []\<rparr>
     \<lparr>buffer_m = [0xFEFF, 0x61, 0, 0], nSymbols_m = 2, nLines_m = 1,
      strings_m = [\<lparr>ptr_m = Some 1, size_m = 1\<rparr>], original_m = []\<rparr>
   = Inl AssertionFailed"
  using C9_setOrder_size_mismatch [of "\<lparr>lines_m = []\<rparr>"
     "\<lparr>buffer_m = [0xFEFF, 0x61, 0, 0], nSymbols_m = 2, nLines_m = 1,
      strings_m = [\<lparr>ptr_m = Some 1, size_m = 1\<rparr>], original_m = []\<rparr>"]
  by simp

end
